theory Spec2Isabelle
  imports Main "HOL-Library.Word"
begin

unbundle bit_operations_syntax

section \<open>JavaScript strings and the platform primitives the codec calls\<close>

text \<open>
  A JavaScript string is a sequence of 16-bit UTF-16 code units. The values of a
  string tensor are such strings. A Node \<open>Buffer\<close> is a sequence of bytes.
\<close>

type_synonym codeunit = "16 word"
type_synonym jsstring = "codeunit list"
type_synonym byte = "8 word"

text \<open>The exceptions the codec can raise: \<open>atob\<close>/\<open>btoa\<close> throw
  \<open>InvalidCharacterError\<close>, \<open>String.fromCodePoint\<close> throws \<open>RangeError\<close>, and
  calling \<open>toString\<close> on \<open>undefined\<close> throws \<open>TypeError\<close>.\<close>

datatype error = InvalidCharacterError | RangeError | TypeError

text \<open>An ASCII literal as a JavaScript string.\<close>

definition js :: "string \<Rightarrow> jsstring" where
  "js s = map of_char s"

definition isHighSurrogate :: "codeunit \<Rightarrow> bool" where
  "isHighSurrogate u = (0xD800 \<le> unat u \<and> unat u \<le> 0xDBFF)"

definition isLowSurrogate :: "codeunit \<Rightarrow> bool" where
  "isLowSurrogate u = (0xDC00 \<le> unat u \<and> unat u \<le> 0xDFFF)"

text \<open>\<open>char.codePointAt(0)\<close>: the code point that starts the string, a surrogate
  pair combined, an unpaired surrogate as its own value; \<open>undefined\<close> (\<open>None\<close>) on
  the empty string.\<close>

fun codePointAt0 :: "jsstring \<Rightarrow> nat option" where
  "codePointAt0 [] = None"
| "codePointAt0 [u] = Some (unat u)"
| "codePointAt0 (h # l # rest) =
     (if isHighSurrogate h \<and> isLowSurrogate l
      then Some ((unat h - 0xD800) * 0x400 + (unat l - 0xDC00) + 0x10000)
      else Some (unat h))"

text \<open>\<open>Array.from(str)\<close>: the string iterator yields one string per code point, a
  surrogate pair as a two-unit string and an unpaired surrogate alone.\<close>

fun Array_from :: "jsstring \<Rightarrow> jsstring list" where
  "Array_from [] = []"
| "Array_from [u] = [[u]]"
| "Array_from (h # l # rest) =
     (if isHighSurrogate h \<and> isLowSurrogate l
      then [h, l] # Array_from rest
      else [h] # Array_from (l # rest))"

text \<open>\<open>String.fromCharCode(n)\<close>: one code unit, \<open>n\<close> taken modulo \<open>2^16\<close>.\<close>

definition fromCharCode :: "nat \<Rightarrow> jsstring" where
  "fromCharCode n = [word_of_nat n]"

text \<open>\<open>String.fromCodePoint(cp)\<close>: \<open>RangeError\<close> above \<open>0x10FFFF\<close>, one unit below
  \<open>0x10000\<close>, a surrogate pair otherwise.\<close>

definition utf16_units :: "nat \<Rightarrow> jsstring" where
  "utf16_units cp =
     (if cp < 0x10000 then [word_of_nat cp]
      else [word_of_nat (0xD800 + (cp - 0x10000) div 0x400),
            word_of_nat (0xDC00 + (cp - 0x10000) mod 0x400)])"

definition fromCodePoint :: "nat \<Rightarrow> error + jsstring" where
  "fromCodePoint cp = (if 0x10FFFF < cp then Inl RangeError else Inr (utf16_units cp))"

text \<open>\<open>str.charCodeAt(i)\<close>: the code unit at \<open>i\<close>; out of range it is \<open>NaN\<close>,
  which the bitwise operators read as 0.\<close>

definition charCodeAt :: "jsstring \<Rightarrow> nat \<Rightarrow> nat" where
  "charCodeAt str i = (if i < length str then unat (str ! i) else 0)"

text \<open>\<open>str.replace(/c/g, d)\<close> for single characters \<open>c\<close> and \<open>d\<close>, and
  \<open>str.replace(/c/g, '')\<close>.\<close>

definition replace_char :: "codeunit \<Rightarrow> codeunit \<Rightarrow> jsstring \<Rightarrow> jsstring" where
  "replace_char c d str = map (\<lambda>u. if u = c then d else u) str"

definition remove_char :: "codeunit \<Rightarrow> jsstring \<Rightarrow> jsstring" where
  "remove_char c str = filter (\<lambda>u. u \<noteq> c) str"

subsection \<open>Base64 of RFC 4648, as \<open>btoa\<close>, \<open>atob\<close> and \<open>Buffer\<close> implement it\<close>

text \<open>The alphabet \<open>A-Z a-z 0-9 + /\<close>: the character of a 6-bit value, and the value
  of a character.\<close>

definition b64char :: "nat \<Rightarrow> codeunit" where
  "b64char n =
     (if n < 26 then word_of_nat (65 + n)
      else if n < 52 then word_of_nat (71 + n)
      else if n < 62 then word_of_nat (n - 4)
      else if n = 62 then 43 else 47)"

definition b64index :: "codeunit \<Rightarrow> nat option" where
  "b64index u =
     (let c = unat u in
      if 65 \<le> c \<and> c \<le> 90 then Some (c - 65)
      else if 97 \<le> c \<and> c \<le> 122 then Some (c - 71)
      else if 48 \<le> c \<and> c \<le> 57 then Some (c + 4)
      else if c = 43 then Some 62
      else if c = 47 then Some 63
      else None)"

definition padChar :: codeunit where
  "padChar = 61"

text \<open>The 6-bit groups of a byte sequence: three bytes make four groups; a last
  group of one or two bytes is filled with zero bits and makes two or three.\<close>

fun sextets :: "byte list \<Rightarrow> nat list" where
  "sextets [] = []"
| "sextets [a] = [unat a div 4, unat a mod 4 * 16]"
| "sextets [a, b] = [unat a div 4, unat a mod 4 * 16 + unat b div 16, unat b mod 16 * 4]"
| "sextets (a # b # c # rest) =
     [unat a div 4, unat a mod 4 * 16 + unat b div 16, unat b mod 16 * 4 + unat c div 64,
      unat c mod 64] @ sextets rest"

text \<open>The encoding: the characters of the groups, padded with \<open>=\<close> to a multiple
  of four characters.\<close>

definition base64_encode :: "byte list \<Rightarrow> jsstring" where
  "base64_encode bs =
     map b64char (sextets bs) @ replicate ((3 - length bs mod 3) mod 3) padChar"

text \<open>Four 6-bit values become three bytes; of a last group of three values the
  last two bits are dropped, of a last group of two the last four; a single last
  value gives no byte.\<close>

fun sextets_to_bytes :: "nat list \<Rightarrow> byte list" where
  "sextets_to_bytes (a # b # c # d # rest) =
     [word_of_nat (a * 4 + b div 16), word_of_nat (b mod 16 * 16 + c div 4),
      word_of_nat (c mod 4 * 64 + d)] @ sextets_to_bytes rest"
| "sextets_to_bytes [a, b, c] =
     [word_of_nat (a * 4 + b div 16), word_of_nat (b mod 16 * 16 + c div 4)]"
| "sextets_to_bytes [a, b] = [word_of_nat (a * 4 + b div 16)]"
| "sextets_to_bytes _ = []"

text \<open>\<open>btoa(data)\<close>: throws when a code unit is above \<open>0xFF\<close>, else encodes the
  units as bytes.\<close>

definition btoa :: "jsstring \<Rightarrow> error + jsstring" where
  "btoa data =
     (if list_all (\<lambda>u. unat u \<le> 0xFF) data
      then Inr (base64_encode (map ucast data))
      else Inl InvalidCharacterError)"

text \<open>\<open>atob(data)\<close>, the forgiving Base64 decoding of the HTML standard: ASCII
  whitespace is removed; when the length is then a multiple of four, one or two
  trailing \<open>=\<close> are removed; a length of 1 modulo 4 or a character outside the
  alphabet throws; the bytes are returned as code units.\<close>

definition isAsciiWhitespace :: "codeunit \<Rightarrow> bool" where
  "isAsciiWhitespace u = (u = 9 \<or> u = 10 \<or> u = 12 \<or> u = 13 \<or> u = 32)"

definition dropLastPad :: "jsstring \<Rightarrow> jsstring" where
  "dropLastPad d = (if d \<noteq> [] \<and> last d = padChar then butlast d else d)"

definition atob :: "jsstring \<Rightarrow> error + jsstring" where
  "atob data =
     (let d = filter (\<lambda>u. \<not> isAsciiWhitespace u) data;
          d' = (if length d mod 4 = 0 then dropLastPad (dropLastPad d) else d)
      in if length d' mod 4 = 1 then Inl InvalidCharacterError
         else (case those (map b64index d') of
                 None \<Rightarrow> Inl InvalidCharacterError
               | Some sx \<Rightarrow> Inr (map ucast (sextets_to_bytes sx))))"

subsection \<open>UTF-8 in Node's \<open>Buffer\<close>\<close>

text \<open>The UTF-8 bytes of a code point.\<close>

definition utf8_bytes :: "nat \<Rightarrow> byte list" where
  "utf8_bytes cp =
     (if cp < 0x80 then [word_of_nat cp]
      else if cp < 0x800 then [word_of_nat (0xC0 + cp div 64), word_of_nat (0x80 + cp mod 64)]
      else if cp < 0x10000 then
        [word_of_nat (0xE0 + cp div 4096), word_of_nat (0x80 + cp div 64 mod 64),
         word_of_nat (0x80 + cp mod 64)]
      else
        [word_of_nat (0xF0 + cp div 262144), word_of_nat (0x80 + cp div 4096 mod 64),
         word_of_nat (0x80 + cp div 64 mod 64), word_of_nat (0x80 + cp mod 64)])"

text \<open>\<open>Buffer.from(str)\<close>: the UTF-8 bytes of the string, an unpaired surrogate
  written as U+FFFD.\<close>

fun Buffer_from :: "jsstring \<Rightarrow> byte list" where
  "Buffer_from [] = []"
| "Buffer_from [u] =
     (if isHighSurrogate u \<or> isLowSurrogate u then utf8_bytes 0xFFFD else utf8_bytes (unat u))"
| "Buffer_from (h # l # rest) =
     (if isHighSurrogate h \<and> isLowSurrogate l
      then utf8_bytes ((unat h - 0xD800) * 0x400 + (unat l - 0xDC00) + 0x10000) @ Buffer_from rest
      else if isHighSurrogate h \<or> isLowSurrogate h
      then utf8_bytes 0xFFFD @ Buffer_from (l # rest)
      else utf8_bytes (unat h) @ Buffer_from (l # rest))"

text \<open>\<open>Buffer.from(str, 'base64')\<close>: Node's decoder reads the characters before
  the first \<open>=\<close>, accepts the URL-safe alphabet as well, skips every other
  character, and never throws.\<close>

definition node_unbase64 :: "codeunit \<Rightarrow> nat option" where
  "node_unbase64 u = (if u = 45 then Some 62 else if u = 95 then Some 63 else b64index u)"

definition Buffer_from_base64 :: "jsstring \<Rightarrow> byte list" where
  "Buffer_from_base64 str =
     sextets_to_bytes (List.map_filter node_unbase64 (takeWhile (\<lambda>u. u \<noteq> padChar) str))"

text \<open>\<open>buf.toString()\<close>: UTF-8 decoding in which every byte that does not start a
  well-formed UTF-8 sequence is replaced by U+FFFD. \<open>utf8_sequence\<close> reads one
  well-formed sequence (shortest form, no surrogates, at most \<open>0x10FFFF\<close>) and
  returns its code point and the remaining bytes.\<close>

definition inRange :: "nat \<Rightarrow> nat \<Rightarrow> byte \<Rightarrow> bool" where
  "inRange lo hi b = (lo \<le> unat b \<and> unat b \<le> hi)"

fun utf8_sequence :: "byte list \<Rightarrow> (nat \<times> byte list) option" where
  "utf8_sequence [] = None"
| "utf8_sequence (a # r) =
     (if unat a < 0x80 then Some (unat a, r)
      else if inRange 0xC2 0xDF a then
        (case r of
           b # r' \<Rightarrow>
             if inRange 0x80 0xBF b
             then Some ((unat a - 0xC0) * 64 + (unat b - 0x80), r')
             else None
         | _ \<Rightarrow> None)
      else if inRange 0xE0 0xEF a then
        (case r of
           b # c # r' \<Rightarrow>
             if inRange (if unat a = 0xE0 then 0xA0 else 0x80)
                        (if unat a = 0xED then 0x9F else 0xBF) b \<and> inRange 0x80 0xBF c
             then Some ((unat a - 0xE0) * 4096 + (unat b - 0x80) * 64 + (unat c - 0x80), r')
             else None
         | _ \<Rightarrow> None)
      else if inRange 0xF0 0xF4 a then
        (case r of
           b # c # d # r' \<Rightarrow>
             if inRange (if unat a = 0xF0 then 0x90 else 0x80)
                        (if unat a = 0xF4 then 0x8F else 0xBF) b
                \<and> inRange 0x80 0xBF c \<and> inRange 0x80 0xBF d
             then Some ((unat a - 0xF0) * 262144 + (unat b - 0x80) * 4096
                        + (unat c - 0x80) * 64 + (unat d - 0x80), r')
             else None
         | _ \<Rightarrow> None)
      else None)"

lemma utf8_sequence_shorter:
  assumes "utf8_sequence s = Some (cp, rest)"
  shows "length rest < length s"
proof (cases s)
  case Nil
  with assms show ?thesis by simp
next
  case (Cons a r)
  show ?thesis
    using assms unfolding Cons utf8_sequence.simps
    by (simp split: if_split_asm list.split_asm)
qed

function Buffer_toString :: "byte list \<Rightarrow> jsstring" where
  "Buffer_toString [] = []"
| "Buffer_toString (a # r) =
     (case utf8_sequence (a # r) of
        None \<Rightarrow> 0xFFFD # Buffer_toString r
      | Some (cp, rest) \<Rightarrow> utf16_units cp @ Buffer_toString rest)"
  by pat_completeness auto
termination
  by (relation "measure length")
     (auto dest: utf8_sequence_shorter simp del: utf8_sequence.simps)

section \<open>The codec of string\_ops.ts\<close>

text \<open>\<open>toUrlSafe\<close> and \<open>fromUrlSafe\<close>: two global replacements each.\<close>

definition toUrlSafe :: "jsstring \<Rightarrow> jsstring" where
  "toUrlSafe str = replace_char 47 95 (replace_char 43 45 str)"

definition fromUrlSafe :: "jsstring \<Rightarrow> jsstring" where
  "fromUrlSafe str = replace_char 95 47 (replace_char 45 43 str)"

text \<open>\<open>utf16ToUtf8Multibyte\<close>: the code point of one character, packed into one to
  four code units that hold its UTF-8 bytes. With \<open>cp\<close> undefined every comparison
  is false and the shifts read 0.\<close>

definition utf16ToUtf8Multibyte :: "jsstring \<Rightarrow> jsstring" where
  "utf16ToUtf8Multibyte char =
     (case codePointAt0 char of
        None \<Rightarrow> fromCharCode 0xf0 @ fromCharCode 0x80 @ fromCharCode 0x80 @ fromCharCode 0x80
      | Some cp \<Rightarrow>
          if cp < 0x80 then char
          else if cp < 0x800 then
            fromCharCode (0xc0 OR drop_bit 6 cp) @ fromCharCode (0x80 OR (cp AND 0x3f))
          else if cp < 0x10000 then
            fromCharCode (0xe0 OR (drop_bit 12 cp AND 0x0f)) @
            fromCharCode (0x80 OR (drop_bit 6 cp AND 0x3f)) @
            fromCharCode (0x80 OR (cp AND 0x3f))
          else
            fromCharCode (0xf0 OR (drop_bit 18 cp AND 0x07)) @
            fromCharCode (0x80 OR (drop_bit 12 cp AND 0x3f)) @
            fromCharCode (0x80 OR (drop_bit 6 cp AND 0x3f)) @
            fromCharCode (0x80 OR (cp AND 0x3f)))"

text \<open>One element of \<open>encodeBase64_\<close>: the body of its loop. \<open>runningInNode\<close> is
  the module constant that selects the \<open>Buffer\<close> path.\<close>

definition encodeValue :: "bool \<Rightarrow> bool \<Rightarrow> jsstring \<Rightarrow> error + jsstring" where
  "encodeValue runningInNode pad v =
     (case (if runningInNode then Inr (base64_encode (Buffer_from v))
            else btoa (concat (map utf16ToUtf8Multibyte (Array_from v)))) of
        Inl e \<Rightarrow> Inl e
      | Inr bVal \<Rightarrow>
          (let bVal' = toUrlSafe bVal
           in Inr (if \<not> pad then remove_char padChar bVal' else bVal')))"

text \<open>\<open>utf8MultibyteToUtf16\<close>: the code point of a matched sequence of two, three
  or four units, as a UTF-16 string; any other sequence is returned as it is.\<close>

definition utf8MultibyteToUtf16 :: "jsstring \<Rightarrow> error + jsstring" where
  "utf8MultibyteToUtf16 seq =
     (if length seq = 2 then
        fromCodePoint (push_bit 6 (0x1f AND charCodeAt seq 0) + (0x3f AND charCodeAt seq 1))
      else if length seq = 3 then
        fromCodePoint (push_bit 12 (0x0f AND charCodeAt seq 0) +
                       push_bit 6 (0x3f AND charCodeAt seq 1) + (0x3f AND charCodeAt seq 2))
      else if length seq = 4 then
        fromCodePoint (push_bit 18 (0x07 AND charCodeAt seq 0) +
                       push_bit 12 (0x3f AND charCodeAt seq 1) +
                       push_bit 6 (0x3f AND charCodeAt seq 2) + (0x3f AND charCodeAt seq 3))
      else Inr seq)"

text \<open>The regular expression \<open>multibyteSeq\<close> tried at the start of a string: the
  length of its match. The three alternatives are tried in order; their first
  characters are in disjoint classes.\<close>

definition isContinuation :: "codeunit \<Rightarrow> bool" where
  "isContinuation u = (0x80 \<le> unat u \<and> unat u \<le> 0xBF)"

fun multibyteSeq_match :: "jsstring \<Rightarrow> nat option" where
  "multibyteSeq_match [] = None"
| "multibyteSeq_match (a # r) =
     (if 0xC0 \<le> unat a \<and> unat a \<le> 0xDF \<and> 1 \<le> length r \<and> list_all isContinuation (take 1 r)
      then Some 2
      else if 0xE0 \<le> unat a \<and> unat a \<le> 0xEF \<and> 2 \<le> length r \<and> list_all isContinuation (take 2 r)
      then Some 3
      else if 0xF0 \<le> unat a \<and> unat a \<le> 0xF7 \<and> 3 \<le> length r \<and> list_all isContinuation (take 3 r)
      then Some 4
      else None)"

lemma multibyteSeq_match_pos: "multibyteSeq_match s = Some n \<Longrightarrow> 0 < n"
  by (cases s) (auto split: if_splits)

text \<open>\<open>str.replace(multibyteSeq, utf8MultibyteToUtf16)\<close>: from left to right, every
  match is replaced by what the callback returns and every other unit is kept; an
  exception of the callback ends the replacement.\<close>

function replace_multibyteSeq :: "jsstring \<Rightarrow> error + jsstring" where
  "replace_multibyteSeq [] = Inr []"
| "replace_multibyteSeq (a # r) =
     (case multibyteSeq_match (a # r) of
        None \<Rightarrow>
          (case replace_multibyteSeq r of Inl e \<Rightarrow> Inl e | Inr t \<Rightarrow> Inr (a # t))
      | Some n \<Rightarrow>
          (case utf8MultibyteToUtf16 (take n (a # r)) of
             Inl e \<Rightarrow> Inl e
           | Inr c \<Rightarrow>
               (case replace_multibyteSeq (drop n (a # r)) of
                  Inl e \<Rightarrow> Inl e
                | Inr t \<Rightarrow> Inr (c @ t))))"
  by pat_completeness auto
termination
  by (relation "measure length")
     (auto dest: multibyteSeq_match_pos simp del: multibyteSeq_match.simps)

text \<open>One element of \<open>decodeBase64_\<close>: the body of its loop.\<close>

definition decodeValue :: "bool \<Rightarrow> jsstring \<Rightarrow> error + jsstring" where
  "decodeValue runningInNode v =
     (let sVal = fromUrlSafe v
      in if runningInNode then Inr (Buffer_toString (Buffer_from_base64 sVal))
         else (case atob sVal of
                 Inl e \<Rightarrow> Inl e
               | Inr s \<Rightarrow> replace_multibyteSeq s))"

text \<open>A string tensor: its shape, its dtype and the flat array of its values,
  which \<open>dataSync()\<close> returns and \<open>Tensor.make\<close> takes. The loops of \<open>encodeBase64_\<close> and \<open>decodeBase64_\<close> fill
  \<open>resultValues[i]\<close> from \<open>values[i]\<close> for \<open>i = 0, 1, ...\<close>; an exception leaves
  the loop and the function at once.\<close>

record tensor =
  shape :: "nat list"
  dtype :: string
  dataSync :: "jsstring list"

fun encodeLoop :: "bool \<Rightarrow> bool \<Rightarrow> jsstring list \<Rightarrow> error + jsstring list" where
  "encodeLoop runningInNode pad [] = Inr []"
| "encodeLoop runningInNode pad (v # vs) =
     (case encodeValue runningInNode pad v of
        Inl e \<Rightarrow> Inl e
      | Inr bVal \<Rightarrow>
          (case encodeLoop runningInNode pad vs of
             Inl e \<Rightarrow> Inl e
           | Inr resultValues \<Rightarrow> Inr (bVal # resultValues)))"

fun decodeLoop :: "bool \<Rightarrow> jsstring list \<Rightarrow> error + jsstring list" where
  "decodeLoop runningInNode [] = Inr []"
| "decodeLoop runningInNode (v # vs) =
     (case decodeValue runningInNode v of
        Inl e \<Rightarrow> Inl e
      | Inr sVal \<Rightarrow>
          (case decodeLoop runningInNode vs of
             Inl e \<Rightarrow> Inl e
           | Inr resultValues \<Rightarrow> Inr (sVal # resultValues)))"

definition encodeBase64 :: "bool \<Rightarrow> tensor \<Rightarrow> bool \<Rightarrow> error + tensor" where
  "encodeBase64 runningInNode str pad =
     (case encodeLoop runningInNode pad (dataSync str) of
        Inl e \<Rightarrow> Inl e
      | Inr resultValues \<Rightarrow>
          Inr \<lparr>shape = shape str, dtype = dtype str, dataSync = resultValues\<rparr>)"

definition decodeBase64 :: "bool \<Rightarrow> tensor \<Rightarrow> error + tensor" where
  "decodeBase64 runningInNode str =
     (case decodeLoop runningInNode (dataSync str) of
        Inl e \<Rightarrow> Inl e
      | Inr resultValues \<Rightarrow>
          Inr \<lparr>shape = shape str, dtype = dtype str, dataSync = resultValues\<rparr>)"

section \<open>The codec over a store of arrays\<close>

text \<open>For the effects of the two functions, the same code with its arrays in a
  store. JavaScript arrays are objects passed by reference: an address is an index
  into the store, an array is a list of slots, each a hole (\<open>None\<close>) or a string.
  A tensor holds the address of its values: \<open>dataSync()\<close> returns that array and
  \<open>Tensor.make\<close> keeps the array it is given.\<close>

type_synonym jsarray = "jsstring option list"
type_synonym store = "jsarray list"

record tensor_ref =
  ref_shape :: "nat list"
  ref_dtype :: string
  dataId :: nat

text \<open>\<open>new Array(n)\<close>: a new array of \<open>n\<close> holes, at a new address.\<close>

definition new_Array :: "store \<Rightarrow> nat \<Rightarrow> store \<times> nat" where
  "new_Array h n = (h @ [replicate n None], length h)"

text \<open>\<open>a[i] = v\<close>: the slot is overwritten; beyond the end the array is extended
  with holes up to \<open>i\<close>.\<close>

definition array_assign :: "store \<Rightarrow> nat \<Rightarrow> nat \<Rightarrow> jsstring \<Rightarrow> store" where
  "array_assign h a i v =
     (if a < length h
      then h[a := (let arr = h ! a
                   in if i < length arr then arr[i := Some v]
                      else arr @ replicate (i - length arr) None @ [Some v])]
      else h)"

lemma array_assign_length [simp]: "length (array_assign h a i v) = length h"
  by (simp add: array_assign_def)

lemma array_assign_other [simp]: "b \<noteq> a \<Longrightarrow> array_assign h a i v ! b = h ! b"
  by (simp add: array_assign_def)

lemma array_assign_same_length:
  "i < length (h ! b) \<Longrightarrow> length (array_assign h a i v ! b) = length (h ! b)"
  by (cases "b = a") (simp_all add: array_assign_def Let_def)

text \<open>The loop \<open>for (let i = 0; i < values.length; ++i)\<close> of both functions, from
  index \<open>i\<close> on; \<open>body\<close> is what the loop computes from \<open>values[i].toString()\<close>
  before it assigns \<open>resultValues[i]\<close>. It returns the store and the exception that
  ended the loop, if any.\<close>

function for_loop_store ::
  "(jsstring \<Rightarrow> error + jsstring) \<Rightarrow> store \<Rightarrow> nat \<Rightarrow> nat \<Rightarrow> nat \<Rightarrow> store \<times> error option"
where
  "for_loop_store body h values resultValues i =
     (if i < length (h ! values) then
        (case h ! values ! i of
           None \<Rightarrow> (h, Some TypeError)
         | Some v \<Rightarrow>
             (case body v of
                Inl e \<Rightarrow> (h, Some e)
              | Inr bVal \<Rightarrow>
                  for_loop_store body (array_assign h resultValues i bVal) values resultValues
                    (i + 1)))
      else (h, None))"
  by pat_completeness auto
termination
  by (relation "measure (\<lambda>(body, h, values, resultValues, i). length (h ! values) - i)")
     (auto simp add: array_assign_same_length)

text \<open>\<open>encodeBase64_\<close> and \<open>decodeBase64_\<close> over the store: \<open>$str.size\<close> is the
  product of the shape.\<close>

definition encodeBase64_store ::
  "bool \<Rightarrow> store \<Rightarrow> tensor_ref \<Rightarrow> bool \<Rightarrow> store \<times> (error + tensor_ref)" where
  "encodeBase64_store runningInNode h str pad =
     (case new_Array h (prod_list (ref_shape str)) of
        (h1, resultValues) \<Rightarrow>
          (case for_loop_store (encodeValue runningInNode pad) h1 (dataId str) resultValues 0 of
             (h2, Some e) \<Rightarrow> (h2, Inl e)
           | (h2, None) \<Rightarrow>
               (h2, Inr \<lparr>ref_shape = ref_shape str, ref_dtype = ref_dtype str,
                         dataId = resultValues\<rparr>)))"

definition decodeBase64_store ::
  "bool \<Rightarrow> store \<Rightarrow> tensor_ref \<Rightarrow> store \<times> (error + tensor_ref)" where
  "decodeBase64_store runningInNode h str =
     (case new_Array h (prod_list (ref_shape str)) of
        (h1, resultValues) \<Rightarrow>
          (case for_loop_store (decodeValue runningInNode) h1 (dataId str) resultValues 0 of
             (h2, Some e) \<Rightarrow> (h2, Inl e)
           | (h2, None) \<Rightarrow>
               (h2, Inr \<lparr>ref_shape = ref_shape str, ref_dtype = ref_dtype str,
                         dataId = resultValues\<rparr>)))"

section \<open>Notions used in the statements\<close>

text \<open>The code points of a string, as the string iterator and \<open>codePointAt\<close> read
  them: a surrogate pair is one code point, an unpaired surrogate is its own.\<close>

fun code_points :: "jsstring \<Rightarrow> nat list" where
  "code_points [] = []"
| "code_points [u] = [unat u]"
| "code_points (h # l # rest) =
     (if isHighSurrogate h \<and> isLowSurrogate l
      then ((unat h - 0xD800) * 0x400 + (unat l - 0xDC00) + 0x10000) # code_points rest
      else unat h # code_points (l # rest))"

text \<open>A valid Unicode string: well-formed UTF-16, that is, no unpaired surrogate
  (\<open>String.prototype.isWellFormed\<close>).\<close>

fun wellFormed :: "jsstring \<Rightarrow> bool" where
  "wellFormed [] = True"
| "wellFormed [u] = (\<not> isHighSurrogate u \<and> \<not> isLowSurrogate u)"
| "wellFormed (h # l # rest) =
     (if isHighSurrogate h \<and> isLowSurrogate l then wellFormed rest
      else \<not> isHighSurrogate h \<and> \<not> isLowSurrogate h \<and> wellFormed (l # rest))"

text \<open>A Unicode scalar value: a code point that is not a surrogate.\<close>

definition scalar_value :: "nat \<Rightarrow> bool" where
  "scalar_value cp = (cp \<le> 0x10FFFF \<and> \<not> (0xD800 \<le> cp \<and> cp \<le> 0xDFFF))"

text \<open>The last two steps of the loop body of \<open>encodeBase64_\<close>, on their own.\<close>

definition finish :: "bool \<Rightarrow> jsstring \<Rightarrow> jsstring" where
  "finish pad bVal = (if \<not> pad then remove_char padChar (toUrlSafe bVal) else toUrlSafe bVal)"

text \<open>The encoding of one value in the words of the specification: the UTF-8 bytes
  of the text; standard Base64 with \<open>=\<close> padding; every \<open>+\<close> replaced by \<open>-\<close> and
  every \<open>/\<close> by \<open>_\<close>; the trailing \<open>=\<close> characters stripped when \<open>pad\<close> is false.\<close>

definition spec_strip_trailing_pad :: "jsstring \<Rightarrow> jsstring" where
  "spec_strip_trailing_pad str = rev (dropWhile (\<lambda>u. u = padChar) (rev str))"

definition spec_url_safe :: "jsstring \<Rightarrow> jsstring" where
  "spec_url_safe str = map (\<lambda>u. if u = 43 then 45 else if u = 47 then 95 else u) str"

definition spec_encode_one :: "bool \<Rightarrow> jsstring \<Rightarrow> jsstring" where
  "spec_encode_one pad v =
     (let bytes = concat (map utf8_bytes (code_points v));
          safe = spec_url_safe (base64_encode bytes)
      in if pad then safe else spec_strip_trailing_pad safe)"

text \<open>A loop body run over a list of values until the first exception: the
  results so far and the exception, if any.\<close>

fun run_body :: "(jsstring \<Rightarrow> error + jsstring) \<Rightarrow> jsstring list \<Rightarrow> jsstring list \<times> error option"
where
  "run_body body [] = ([], None)"
| "run_body body (v # vs) =
     (case body v of
        Inl e \<Rightarrow> ([], Some e)
      | Inr b \<Rightarrow> (case run_body body vs of (bs, eo) \<Rightarrow> (b # bs, eo)))"

text \<open>Well-formed UTF-8: the bytes split into well-formed sequences.\<close>

function valid_utf8 :: "byte list \<Rightarrow> bool" where
  "valid_utf8 [] = True"
| "valid_utf8 (a # r) =
     (case utf8_sequence (a # r) of
        None \<Rightarrow> False
      | Some (cp, rest) \<Rightarrow> valid_utf8 rest)"
  by pat_completeness auto
termination
  by (relation "measure length")
     (auto dest: utf8_sequence_shorter simp del: utf8_sequence.simps)

section \<open>Lemmas\<close>

subsection \<open>The Base64 alphabet\<close>

lemma b64char_alphabet:
  "map b64char [0..<64] = js ''ABCDEFGHIJKLMNOPQRSTUVWXYZabcdefghijklmnopqrstuvwxyz0123456789+/''"
  by (simp add: upt_rec b64char_def js_def)

lemma unat_word_of_nat_16: "n < 65536 \<Longrightarrow> unat (word_of_nat n :: 16 word) = n"
  by (simp add: unat_of_nat)

lemma unat_b64char:
  "n < 64 \<Longrightarrow> unat (b64char n) =
     (if n < 26 then 65 + n else if n < 52 then 71 + n else if n < 62 then n - 4
      else if n = 62 then 43 else 47)"
  by (simp add: b64char_def unat_word_of_nat_16 del: of_nat_add of_nat_diff)

lemma b64index_b64char: "n < 64 \<Longrightarrow> b64index (b64char n) = Some n"
  by (auto simp add: b64index_def unat_b64char Let_def)

lemma b64char_not_pad: "n < 64 \<Longrightarrow> b64char n \<noteq> padChar"
proof
  assume "n < 64" "b64char n = padChar"
  then have "unat (b64char n) = 61" by (simp add: padChar_def)
  with \<open>n < 64\<close> show False by (simp add: unat_b64char split: if_splits)
qed

lemma b64char_not_ws: "n < 64 \<Longrightarrow> \<not> isAsciiWhitespace (b64char n)"
proof
  assume n: "n < 64" and "isAsciiWhitespace (b64char n)"
  then have "unat (b64char n) \<in> {9, 10, 12, 13, 32}"
    by (auto simp add: isAsciiWhitespace_def)
  with n show False by (auto simp add: unat_b64char split: if_splits)
qed

lemma b64char_not_urlsafe: "n < 64 \<Longrightarrow> b64char n \<noteq> 45 \<and> b64char n \<noteq> 95"
proof -
  assume n: "n < 64"
  have "unat (b64char n) \<noteq> 45 \<and> unat (b64char n) \<noteq> 95"
    using n by (auto simp add: unat_b64char)
  then show ?thesis by auto
qed

subsection \<open>Base64 encoding followed by \<open>atob\<close>\<close>

lemma unat_byte_lt: "unat (a :: byte) < 256"
  using unsigned_less [of a, where 'a = nat] by simp

lemma sextets_lt: "x \<in> set (sextets bs) \<Longrightarrow> x < 64"
proof (induction bs arbitrary: x rule: sextets.induct)
  case 1
  then show ?case by simp
next
  case (2 a)
  then show ?case using unat_byte_lt [of a] by auto
next
  case (3 a b)
  then show ?case using unat_byte_lt [of a] unat_byte_lt [of b] by auto
next
  case (4 a b c rest)
  then show ?case
    using unat_byte_lt [of a] unat_byte_lt [of b] unat_byte_lt [of c]
    by auto
qed

lemma sextets_length:
  "length (sextets bs) mod 4 \<noteq> 1 \<and>
   (length (sextets bs) + (3 - length bs mod 3) mod 3) mod 4 = 0"
  by (induction bs rule: sextets.induct) simp_all

lemma sextets_to_bytes_sextets: "sextets_to_bytes (sextets bs) = bs"
proof (induction bs rule: sextets.induct)
  case 1
  then show ?case by simp
next
  case (2 a)
  then show ?case by simp
next
  case (3 a b)
  then show ?case using unat_byte_lt [of b] by simp
next
  case (4 a b c rest)
  then show ?case using unat_byte_lt [of b] unat_byte_lt [of c] by simp
qed

lemma those_map_b64index:
  "\<forall>x \<in> set sx. x < 64 \<Longrightarrow> those (map b64index (map b64char sx)) = Some sx"
  by (induction sx) (simp_all add: b64index_b64char)

lemma filter_ws_b64:
  "\<forall>x \<in> set sx. x < 64 \<Longrightarrow>
   filter (\<lambda>u. \<not> isAsciiWhitespace u) (map b64char sx @ replicate p padChar)
     = map b64char sx @ replicate p padChar"
proof -
  assume "\<forall>x \<in> set sx. x < 64"
  moreover have "\<not> isAsciiWhitespace padChar"
    by (simp add: isAsciiWhitespace_def padChar_def)
  ultimately show ?thesis
    by (auto simp add: filter_id_conv b64char_not_ws)
qed

lemma dropLastPad_b64 [simp]:
  "\<forall>x \<in> set sx. x < 64 \<Longrightarrow> dropLastPad (map b64char sx) = map b64char sx"
proof (cases "sx = []")
  case True
  then show ?thesis by (simp add: dropLastPad_def)
next
  case False
  assume "\<forall>x \<in> set sx. x < 64"
  with False have "last (map b64char sx) \<noteq> padChar"
    by (simp add: last_map b64char_not_pad)
  then show ?thesis by (simp add: dropLastPad_def)
qed

lemma dropLastPad_snoc [simp]: "dropLastPad (d @ [padChar]) = d"
  by (simp add: dropLastPad_def)

lemma dropLastPad_twice:
  assumes "\<forall>x \<in> set sx. x < 64" "p \<le> 2"
  shows "dropLastPad (dropLastPad (map b64char sx @ replicate p padChar)) = map b64char sx"
proof -
  from assms(2) consider "p = 0" | "p = 1" | "p = 2" by linarith
  then show ?thesis
  proof cases
    case 1
    then show ?thesis using assms(1) by simp
  next
    case 2
    then show ?thesis using assms(1) by simp
  next
    case 3
    then have "map b64char sx @ replicate p padChar = (map b64char sx @ [padChar]) @ [padChar]"
      by (simp add: numeral_2_eq_2)
    then show ?thesis using assms(1) by (simp del: append_assoc)
  qed
qed

lemma atob_b64:
  assumes lt: "\<forall>x \<in> set sx. x < 64"
    and len: "length sx mod 4 \<noteq> 1"
    and pad: "p = 0 \<or> (p \<le> 2 \<and> (length sx + p) mod 4 = 0)"
  shows "atob (map b64char sx @ replicate p padChar) = Inr (map ucast (sextets_to_bytes sx))"
proof -
  let ?d = "map b64char sx @ replicate p padChar"
  have d': "(if length ?d mod 4 = 0 then dropLastPad (dropLastPad ?d) else ?d) = map b64char sx"
  proof (cases "p = 0")
    case True
    then show ?thesis using lt by simp
  next
    case False
    with pad have "p \<le> 2" "(length sx + p) mod 4 = 0" by auto
    then show ?thesis using lt by (simp add: dropLastPad_twice)
  qed
  show ?thesis
    unfolding atob_def filter_ws_b64 [OF lt] Let_def d'
    using len those_map_b64index [OF lt] by simp
qed

lemma atob_base64_encode: "atob (base64_encode bs) = Inr (map ucast bs)"
  unfolding base64_encode_def
  using sextets_length [of bs]
  by (subst atob_b64) (auto simp add: sextets_lt sextets_to_bytes_sextets)

lemma remove_char_b64:
  "\<forall>x \<in> set sx. x < 64 \<Longrightarrow>
   remove_char padChar (map b64char sx @ replicate p padChar) = map b64char sx"
  by (auto simp add: remove_char_def filter_id_conv b64char_not_pad)

lemma atob_base64_encode_unpadded:
  "atob (remove_char padChar (base64_encode bs)) = Inr (map ucast bs)"
proof -
  have "atob (map b64char (sextets bs) @ replicate 0 padChar) = Inr (map ucast bs)"
    using sextets_length [of bs]
    by (subst atob_b64) (auto simp add: sextets_lt sextets_to_bytes_sextets)
  then show ?thesis
    by (simp add: base64_encode_def remove_char_b64 sextets_lt)
qed

subsection \<open>The bit operations of the UTF-8 packing\<close>

lemma and_mask_nat: "(x::nat) AND mask k = x mod 2 ^ k"
  by (simp add: take_bit_eq_mod flip: take_bit_eq_mask)

lemma and_consts:
  "(x::nat) AND 0x3f = x mod 64" "(x::nat) AND 0x0f = x mod 16" "(x::nat) AND 0x07 = x mod 8"
  "0x3f AND (x::nat) = x mod 64" "0x0f AND (x::nat) = x mod 16" "0x07 AND (x::nat) = x mod 8"
  "0x1f AND (x::nat) = x mod 32"
  using and_mask_nat [of x 6] and_mask_nat [of x 4] and_mask_nat [of x 3] and_mask_nat [of x 5]
  by (simp_all add: mask_eq_exp_minus_1 and.commute)

lemma or_push_bit: "y < 2 ^ k \<Longrightarrow> push_bit k x OR y = push_bit k x + (y::nat)"
proof -
  assume "y < 2 ^ k"
  then have y: "take_bit k y = y" by (simp add: take_bit_nat_eq_self)
  have "push_bit k x AND take_bit k y = 0"
    by (rule bit_eqI) (simp add: bit_simps)
  then show ?thesis
    using y by (simp add: disjunctive_add_eq_or)
qed

lemma or_consts:
  "y < 64 \<Longrightarrow> 0x80 OR y = 0x80 + (y::nat)"
  "y < 64 \<Longrightarrow> 0xc0 OR y = 0xc0 + (y::nat)"
  "y < 32 \<Longrightarrow> 0xe0 OR y = 0xe0 + (y::nat)"
  "y < 16 \<Longrightarrow> 0xf0 OR y = 0xf0 + (y::nat)"
  using or_push_bit [of y 6 2] or_push_bit [of y 6 3] or_push_bit [of y 5 7]
    or_push_bit [of y 4 15]
  by (simp_all add: push_bit_eq_mult)

lemma unat_unit_lt: "unat (u :: codeunit) < 65536"
  using unsigned_less [of u, where 'a = nat] by simp

lemma ucast_byte_of_nat:
  "n < 256 \<Longrightarrow> (ucast (word_of_nat n :: byte) :: codeunit) = word_of_nat n"
  by (simp add: word_unat_eq_iff unsigned_ucast_eq unsigned_of_nat take_bit_nat_eq_self)

lemma manual_bytes:
  assumes "cp \<le> 0x10FFFF"
  shows "0x80 \<le> cp \<Longrightarrow> cp < 0x800 \<Longrightarrow>
           fromCharCode (0xc0 OR drop_bit 6 cp) @ fromCharCode (0x80 OR (cp AND 0x3f))
           = map ucast (utf8_bytes cp)"
    and "0x800 \<le> cp \<Longrightarrow> cp < 0x10000 \<Longrightarrow> 
            fromCharCode (0xe0 OR (drop_bit 12 cp AND 0x0f)) @
            fromCharCode (0x80 OR (drop_bit 6 cp AND 0x3f)) @
            fromCharCode (0x80 OR (cp AND 0x3f))
           = map ucast (utf8_bytes cp)"
    and "0x10000 \<le> cp \<Longrightarrow>
            fromCharCode (0xf0 OR (drop_bit 18 cp AND 0x07)) @
            fromCharCode (0x80 OR (drop_bit 12 cp AND 0x3f)) @
            fromCharCode (0x80 OR (drop_bit 6 cp AND 0x3f)) @
            fromCharCode (0x80 OR (cp AND 0x3f))
           = map ucast (utf8_bytes cp)"
proof -
  show "0x80 \<le> cp \<Longrightarrow> cp < 0x800 \<Longrightarrow>
           fromCharCode (0xc0 OR drop_bit 6 cp) @ fromCharCode (0x80 OR (cp AND 0x3f))
           = map ucast (utf8_bytes cp)"
  proof -
    assume a: "0x80 \<le> cp" "cp < 0x800"
    then have "cp div 64 < 64" by simp
    then show ?thesis
      using a
      by (simp add: fromCharCode_def utf8_bytes_def and_consts or_consts drop_bit_eq_div
          ucast_byte_of_nat del: of_nat_add)
  qed
  show "0x800 \<le> cp \<Longrightarrow> cp < 0x10000 \<Longrightarrow> 
            fromCharCode (0xe0 OR (drop_bit 12 cp AND 0x0f)) @
            fromCharCode (0x80 OR (drop_bit 6 cp AND 0x3f)) @
            fromCharCode (0x80 OR (cp AND 0x3f))
           = map ucast (utf8_bytes cp)"
  proof -
    assume a: "0x800 \<le> cp" "cp < 0x10000"
    then have "cp div 4096 < 16" by simp
    then have "cp div 4096 mod 16 = cp div 4096" by simp
    then show ?thesis
      using a \<open>cp div 4096 < 16\<close>
      by (simp add: fromCharCode_def utf8_bytes_def and_consts or_consts drop_bit_eq_div
          ucast_byte_of_nat del: of_nat_add)
  qed
  show "0x10000 \<le> cp \<Longrightarrow>
            fromCharCode (0xf0 OR (drop_bit 18 cp AND 0x07)) @
            fromCharCode (0x80 OR (drop_bit 12 cp AND 0x3f)) @
            fromCharCode (0x80 OR (drop_bit 6 cp AND 0x3f)) @
            fromCharCode (0x80 OR (cp AND 0x3f))
           = map ucast (utf8_bytes cp)"
  proof -
    assume a: "0x10000 \<le> cp"
    from assms have "cp div 262144 < 8" by simp
    then have "cp div 262144 mod 8 = cp div 262144" by simp
    then show ?thesis
      using a \<open>cp div 262144 < 8\<close>
      by (simp add: fromCharCode_def utf8_bytes_def and_consts or_consts drop_bit_eq_div
          ucast_byte_of_nat del: of_nat_add)
  qed
qed

subsection \<open>\<open>utf16ToUtf8Multibyte\<close> and \<open>btoa\<close>\<close>

lemma pair_code_point_range:
  assumes "isHighSurrogate h" "isLowSurrogate l"
  shows "0x10000 \<le> (unat h - 0xD800) * 0x400 + (unat l - 0xDC00) + 0x10000"
    and "(unat h - 0xD800) * 0x400 + (unat l - 0xDC00) + 0x10000 \<le> 0x10FFFF"
proof -
  from assms have "unat h - 0xD800 \<le> 0x3FF" "unat l - 0xDC00 \<le> 0x3FF"
    unfolding isHighSurrogate_def isLowSurrogate_def by arith+
  moreover from this(1) have "(unat h - 0xD800) * 0x400 \<le> 0x3FF * 0x400"
    by (rule mult_le_mono1)
  ultimately show "(unat h - 0xD800) * 0x400 + (unat l - 0xDC00) + 0x10000 \<le> 0x10FFFF"
    by simp
  show "0x10000 \<le> (unat h - 0xD800) * 0x400 + (unat l - 0xDC00) + 0x10000"
    by simp
qed

lemma unat_ucast_byte: "unat (ucast (b :: byte) :: codeunit) = unat b"
proof -
  have "unat b < 65536"
    using unat_byte_lt [of b] by simp
  then show ?thesis
    by (simp add: unsigned_ucast_eq unsigned_take_bit_eq take_bit_nat_eq_self)
qed

lemma ucast_ucast_byte: "(ucast (ucast (b :: byte) :: codeunit) :: byte) = b"
  by (rule ucast_up_ucast_id) (simp add: is_up)

lemma ucast_ucast_unit:
  "unat (u :: codeunit) < 256 \<Longrightarrow> (ucast (ucast u :: byte) :: codeunit) = u"
  by (simp add: word_unat_eq_iff unsigned_ucast_eq unsigned_take_bit_eq take_bit_nat_eq_self)

lemma utf16ToUtf8Multibyte_single:
  "utf16ToUtf8Multibyte [u] = map ucast (utf8_bytes (unat u))"
proof -
  have le: "unat u \<le> 0x10FFFF" and lt: "unat u < 0x10000"
    using unat_unit_lt [of u] by simp_all
  consider "unat u < 0x80" | "0x80 \<le> unat u" "unat u < 0x800" | "0x800 \<le> unat u"
    by linarith
  then show ?thesis
  proof cases
    case 1
    then show ?thesis
      by (simp add: utf16ToUtf8Multibyte_def utf8_bytes_def ucast_ucast_unit)
  next
    case 2
    then have "utf16ToUtf8Multibyte [u] =
        fromCharCode (0xc0 OR drop_bit 6 (unat u)) @ fromCharCode (0x80 OR (unat u AND 0x3f))"
      by (simp add: utf16ToUtf8Multibyte_def)
    also have "\<dots> = map ucast (utf8_bytes (unat u))"
      using 2 by (rule manual_bytes(1) [OF le])
    finally show ?thesis .
  next
    case 3
    then have "utf16ToUtf8Multibyte [u] =
        fromCharCode (0xe0 OR (drop_bit 12 (unat u) AND 0x0f)) @
        fromCharCode (0x80 OR (drop_bit 6 (unat u) AND 0x3f)) @
        fromCharCode (0x80 OR (unat u AND 0x3f))"
      using lt by (simp add: utf16ToUtf8Multibyte_def)
    also have "\<dots> = map ucast (utf8_bytes (unat u))"
      using 3 lt by (rule manual_bytes(2) [OF le])
    finally show ?thesis .
  qed
qed

lemma utf16ToUtf8Multibyte_pair:
  assumes "isHighSurrogate h" "isLowSurrogate l"
  shows "utf16ToUtf8Multibyte [h, l] =
         map ucast (utf8_bytes ((unat h - 0xD800) * 0x400 + (unat l - 0xDC00) + 0x10000))"
proof -
  let ?cp = "(unat h - 0xD800) * 0x400 + (unat l - 0xDC00) + 0x10000"
  have ge: "0x10000 \<le> ?cp" and le: "?cp \<le> 0x10FFFF"
    using pair_code_point_range [OF assms] by simp_all
  have "utf16ToUtf8Multibyte [h, l] =
        fromCharCode (0xf0 OR (drop_bit 18 ?cp AND 0x07)) @
        fromCharCode (0x80 OR (drop_bit 12 ?cp AND 0x3f)) @
        fromCharCode (0x80 OR (drop_bit 6 ?cp AND 0x3f)) @
        fromCharCode (0x80 OR (?cp AND 0x3f))"
    using assms by (simp add: utf16ToUtf8Multibyte_def)
  also have "\<dots> = map ucast (utf8_bytes ?cp)"
    using ge by (rule manual_bytes(3) [OF le])
  finally show ?thesis .
qed

lemma manual_utf8:
  "concat (map utf16ToUtf8Multibyte (Array_from v)) =
   map ucast (concat (map utf8_bytes (code_points v)))"
proof (induction v rule: Array_from.induct)
  case 1
  then show ?case by simp
next
  case (2 u)
  then show ?case by (simp add: utf16ToUtf8Multibyte_single)
next
  case (3 h l rest)
  then show ?case
    by (simp add: utf16ToUtf8Multibyte_single utf16ToUtf8Multibyte_pair)
qed

lemma btoa_bytes: "btoa (map ucast (bs :: byte list)) = Inr (base64_encode bs)"
proof -
  have "list_all (\<lambda>u. unat u \<le> 0xFF) (map ucast bs :: jsstring)"
    using unat_byte_lt by (auto simp add: list_all_iff unat_ucast_byte less_Suc_eq_le [symmetric])
  moreover have "map ucast (map ucast bs :: jsstring) = bs"
    by (simp add: ucast_ucast_byte comp_def)
  ultimately show ?thesis by (simp add: btoa_def del: map_map)
qed

lemma Buffer_from_wellFormed:
  "wellFormed v \<Longrightarrow> Buffer_from v = concat (map utf8_bytes (code_points v))"
  by (induction v rule: Buffer_from.induct) (auto split: if_splits)

lemma encodeValue_manual:
  "encodeValue False pad v =
   Inr (finish pad (base64_encode (concat (map utf8_bytes (code_points v)))))"
  by (simp add: encodeValue_def manual_utf8 btoa_bytes finish_def Let_def)

lemma encodeValue_node:
  "encodeValue True pad v = Inr (finish pad (base64_encode (Buffer_from v)))"
  by (simp add: encodeValue_def finish_def Let_def)

subsection \<open>URL-safe characters and padding\<close>

lemma toUrlSafe_append: "toUrlSafe (xs @ ys) = toUrlSafe xs @ toUrlSafe ys"
  by (simp add: toUrlSafe_def replace_char_def)

lemma toUrlSafe_pad: "toUrlSafe (replicate p padChar) = replicate p padChar"
  by (simp add: toUrlSafe_def replace_char_def padChar_def)

lemma toUrlSafe_no_plus_slash: "43 \<notin> set (toUrlSafe str) \<and> 47 \<notin> set (toUrlSafe str)"
  by (auto simp add: toUrlSafe_def replace_char_def)

lemma toUrlSafe_no_pad: "padChar \<notin> set str \<Longrightarrow> padChar \<notin> set (toUrlSafe str)"
  by (auto simp add: toUrlSafe_def replace_char_def padChar_def)

lemma b64chars_no_pad: "padChar \<notin> set (map b64char (sextets bs))"
  by (metis (no_types, lifting) b64char_not_pad sextets_lt imageE list.set_map)

lemma remove_char_append_replicate:
  "c \<notin> set str \<Longrightarrow> remove_char c (str @ replicate p c) = str"
  by (auto simp add: remove_char_def filter_id_conv)

lemma finish_padded:
  "finish True (base64_encode bs) =
   finish False (base64_encode bs) @ replicate ((3 - length bs mod 3) mod 3) padChar"
  using toUrlSafe_no_pad [OF b64chars_no_pad, of bs]
  by (simp add: finish_def base64_encode_def toUrlSafe_append toUrlSafe_pad
      remove_char_append_replicate)

lemma finish_no_plus_slash: "43 \<notin> set (finish pad e) \<and> 47 \<notin> set (finish pad e)"
  using toUrlSafe_no_plus_slash [of e] by (auto simp add: finish_def remove_char_def)

lemma encodeValue_total:
  "encodeValue runningInNode pad v =
   Inr (finish pad (base64_encode
     (if runningInNode then Buffer_from v else concat (map utf8_bytes (code_points v)))))"
  by (cases runningInNode) (simp_all add: encodeValue_manual encodeValue_node)

subsection \<open>The multibyte replacement\<close>

lemma replace_no_match:
  "unat a < 0xC0 \<or> 0xF7 < unat a \<Longrightarrow>
   replace_multibyteSeq (a # rest) =
     (case replace_multibyteSeq rest of Inl e \<Rightarrow> Inl e | Inr t \<Rightarrow> Inr (a # t))"
  by auto

lemma replace_two:
  assumes "0xC0 \<le> unat a" "unat a \<le> 0xDF" "isContinuation b"
  shows "replace_multibyteSeq (a # b # rest) =
     (case fromCodePoint (unat a mod 32 * 64 + unat b mod 64) of
        Inl e \<Rightarrow> Inl e
      | Inr c \<Rightarrow>
          (case replace_multibyteSeq rest of Inl e \<Rightarrow> Inl e | Inr t \<Rightarrow> Inr (c @ t)))"
proof -
  have m: "multibyteSeq_match (a # b # rest) = Some 2"
    using assms by simp
  have c: "utf8MultibyteToUtf16 [a, b] = fromCodePoint (unat a mod 32 * 64 + unat b mod 64)"
    by (simp add: utf8MultibyteToUtf16_def charCodeAt_def and_consts push_bit_eq_mult)
  show ?thesis
    by (simp add: m c del: multibyteSeq_match.simps split: sum.split)
qed

lemma replace_three:
  assumes "0xE0 \<le> unat a" "unat a \<le> 0xEF" "isContinuation b" "isContinuation c"
  shows "replace_multibyteSeq (a # b # c # rest) =
     (case fromCodePoint (unat a mod 16 * 4096 + unat b mod 64 * 64 + unat c mod 64) of
        Inl e \<Rightarrow> Inl e
      | Inr c \<Rightarrow>
          (case replace_multibyteSeq rest of Inl e \<Rightarrow> Inl e | Inr t \<Rightarrow> Inr (c @ t)))"
proof -
  have m: "multibyteSeq_match (a # b # c # rest) = Some 3"
    using assms by simp
  have c: "utf8MultibyteToUtf16 [a, b, c] =
           fromCodePoint (unat a mod 16 * 4096 + unat b mod 64 * 64 + unat c mod 64)"
    by (simp add: utf8MultibyteToUtf16_def charCodeAt_def and_consts push_bit_eq_mult)
  show ?thesis
    by (simp add: m c del: multibyteSeq_match.simps split: sum.split)
qed

lemma replace_four:
  assumes "0xF0 \<le> unat a" "unat a \<le> 0xF7" "isContinuation b" "isContinuation c"
    "isContinuation d"
  shows "replace_multibyteSeq (a # b # c # d # rest) =
     (case fromCodePoint (unat a mod 8 * 262144 + unat b mod 64 * 4096 + unat c mod 64 * 64
                          + unat d mod 64) of
        Inl e \<Rightarrow> Inl e
      | Inr c \<Rightarrow>
          (case replace_multibyteSeq rest of Inl e \<Rightarrow> Inl e | Inr t \<Rightarrow> Inr (c @ t)))"
proof -
  have m: "multibyteSeq_match (a # b # c # d # rest) = Some 4"
    using assms by simp
  have c: "utf8MultibyteToUtf16 [a, b, c, d] =
           fromCodePoint (unat a mod 8 * 262144 + unat b mod 64 * 4096 + unat c mod 64 * 64
                          + unat d mod 64)"
    by (simp add: utf8MultibyteToUtf16_def charCodeAt_def and_consts push_bit_eq_mult)
  show ?thesis
    by (simp add: m c del: multibyteSeq_match.simps split: sum.split)
qed

lemma unat_utf8_unit:
  "n < 256 \<Longrightarrow> unat (ucast (word_of_nat n :: byte) :: codeunit) = n"
  by (simp add: ucast_byte_of_nat unat_of_nat)

lemma digits3_aux:
  "q = a * 64 + b \<Longrightarrow> cp = q * 64 + c \<Longrightarrow> a * 4096 + b * 64 + c = (cp::nat)"
  by simp

lemma digits4_aux:
  "p = a * 64 + b \<Longrightarrow> q = p * 64 + c \<Longrightarrow> cp = q * 64 + d \<Longrightarrow>
   a * 262144 + b * 4096 + c * 64 + d = (cp::nat)"
  by simp

lemma split3: "(cp::nat) div 4096 * 4096 + cp div 64 mod 64 * 64 + cp mod 64 = cp"
proof -
  have "cp div 64 = cp div 64 div 64 * 64 + cp div 64 mod 64" by simp
  moreover have "cp = cp div 64 * 64 + cp mod 64" by simp
  ultimately have "cp div 64 div 64 * 4096 + cp div 64 mod 64 * 64 + cp mod 64 = cp"
    by (rule digits3_aux)
  moreover have "cp div 64 div 64 = cp div 4096"
    by (simp add: div_mult2_eq [symmetric])
  ultimately show ?thesis by (simp only:)
qed

lemma split4:
  "(cp::nat) div 262144 * 262144 + cp div 4096 mod 64 * 4096 + cp div 64 mod 64 * 64
   + cp mod 64 = cp"
proof -
  have "cp div 64 div 64 = cp div 64 div 64 div 64 * 64 + cp div 64 div 64 mod 64" by simp
  moreover have "cp div 64 = cp div 64 div 64 * 64 + cp div 64 mod 64" by simp
  moreover have "cp = cp div 64 * 64 + cp mod 64" by simp
  ultimately have "cp div 64 div 64 div 64 * 262144 + cp div 64 div 64 mod 64 * 4096
      + cp div 64 mod 64 * 64 + cp mod 64 = cp"
    by (rule digits4_aux)
  moreover have "cp div 64 div 64 = cp div 4096" "cp div 64 div 64 div 64 = cp div 262144"
    by (simp_all add: div_mult2_eq [symmetric])
  ultimately show ?thesis by (simp only:)
qed

lemma lead_mod:
  "q < 32 \<Longrightarrow> (192 + q) mod 32 = (q::nat)"
  "q < 16 \<Longrightarrow> (224 + q) mod 16 = (q::nat)"
  "q < 8 \<Longrightarrow> (240 + q) mod 8 = (q::nat)"
  "(128 + r mod 64) mod 64 = (r::nat) mod 64"
  using mod_mult_self4 [of 32 6 q] mod_mult_self4 [of 16 14 q] mod_mult_self4 [of 8 30 q]
    mod_mult_self4 [of 64 2 "r mod 64"]
  by simp_all

lemma fromCodePoint_ok: "cp \<le> 0x10FFFF \<Longrightarrow> fromCodePoint cp = Inr (utf16_units cp)"
  by (simp add: fromCodePoint_def)

lemma replace_utf8_bytes:
  assumes "cp \<le> 0x10FFFF"
  shows "replace_multibyteSeq (map ucast (utf8_bytes cp) @ rest) =
     (case replace_multibyteSeq rest of
        Inl e \<Rightarrow> Inl e
      | Inr t \<Rightarrow> Inr (utf16_units cp @ t))"
proof -
  consider "cp < 0x80" | "0x80 \<le> cp" "cp < 0x800" | "0x800 \<le> cp" "cp < 0x10000"
    | "0x10000 \<le> cp"
    by linarith
  then show ?thesis
  proof cases
    case 1
    let ?a = "ucast (word_of_nat cp :: byte) :: codeunit"
    have u: "unat ?a = cp"
      using 1 by (simp add: unat_utf8_unit)
    have e: "map ucast (utf8_bytes cp) @ rest = ?a # rest"
      using 1 by (simp add: utf8_bytes_def)
    have f: "utf16_units cp = [?a]"
      using 1 by (simp add: utf16_units_def ucast_byte_of_nat)
    have r: "replace_multibyteSeq (?a # rest) =
      (case replace_multibyteSeq rest of Inl e \<Rightarrow> Inl e | Inr t \<Rightarrow> Inr (?a # t))"
      by (rule replace_no_match) (simp add: u 1 less_trans [OF 1])
    show ?thesis
      unfolding e r f by (simp split: sum.split)
  next
    case 2
    let ?a = "ucast (word_of_nat (0xC0 + cp div 64) :: byte) :: codeunit"
    let ?b = "ucast (word_of_nat (0x80 + cp mod 64) :: byte) :: codeunit"
    have a: "unat ?a = 0xC0 + cp div 64" and b: "unat ?b = 0x80 + cp mod 64"
      using 2 by (simp_all add: unat_utf8_unit del: of_nat_add)
    have "cp div 64 < 32" using 2 by simp
    then have cp: "unat ?a mod 32 * 64 + unat ?b mod 64 = cp"
      unfolding a b by (simp add: lead_mod)
    have "replace_multibyteSeq (?a # ?b # rest) =
      (case fromCodePoint (unat ?a mod 32 * 64 + unat ?b mod 64) of
        Inl e \<Rightarrow> Inl e
      | Inr c \<Rightarrow>
          (case replace_multibyteSeq rest of Inl e \<Rightarrow> Inl e | Inr t \<Rightarrow> Inr (c @ t)))"
      using \<open>cp div 64 < 32\<close>
      by (intro replace_two) (simp_all add: a b isContinuation_def del: of_nat_add)
    moreover have "map ucast (utf8_bytes cp) @ rest = ?a # ?b # rest"
      using 2 by (simp add: utf8_bytes_def del: of_nat_add)
    ultimately show ?thesis
      unfolding cp fromCodePoint_ok [OF assms] by simp
  next
    case 3
    let ?a = "ucast (word_of_nat (0xE0 + cp div 4096) :: byte) :: codeunit"
    let ?b = "ucast (word_of_nat (0x80 + cp div 64 mod 64) :: byte) :: codeunit"
    let ?c = "ucast (word_of_nat (0x80 + cp mod 64) :: byte) :: codeunit"
    have lt: "cp div 4096 < 16" using 3 by simp
    have a: "unat ?a = 0xE0 + cp div 4096" and b: "unat ?b = 0x80 + cp div 64 mod 64"
      and c: "unat ?c = 0x80 + cp mod 64"
      using lt by (simp_all add: unat_utf8_unit del: of_nat_add)
    have cp: "unat ?a mod 16 * 4096 + unat ?b mod 64 * 64 + unat ?c mod 64 = cp"
      unfolding a b c using lt split3 [of cp] by (simp add: lead_mod)
    have "replace_multibyteSeq (?a # ?b # ?c # rest) =
      (case fromCodePoint (unat ?a mod 16 * 4096 + unat ?b mod 64 * 64 + unat ?c mod 64) of
        Inl e \<Rightarrow> Inl e
      | Inr c \<Rightarrow>
          (case replace_multibyteSeq rest of Inl e \<Rightarrow> Inl e | Inr t \<Rightarrow> Inr (c @ t)))"
      using lt by (intro replace_three) (simp_all add: a b c isContinuation_def del: of_nat_add)
    moreover have "map ucast (utf8_bytes cp) @ rest = ?a # ?b # ?c # rest"
      using 3 by (simp add: utf8_bytes_def del: of_nat_add)
    ultimately show ?thesis
      unfolding cp fromCodePoint_ok [OF assms] by simp
  next
    case 4
    let ?a = "ucast (word_of_nat (0xF0 + cp div 262144) :: byte) :: codeunit"
    let ?b = "ucast (word_of_nat (0x80 + cp div 4096 mod 64) :: byte) :: codeunit"
    let ?c = "ucast (word_of_nat (0x80 + cp div 64 mod 64) :: byte) :: codeunit"
    let ?d = "ucast (word_of_nat (0x80 + cp mod 64) :: byte) :: codeunit"
    have lt: "cp div 262144 < 8" using assms by simp
    have a: "unat ?a = 0xF0 + cp div 262144" and b: "unat ?b = 0x80 + cp div 4096 mod 64"
      and c: "unat ?c = 0x80 + cp div 64 mod 64" and d: "unat ?d = 0x80 + cp mod 64"
      using lt by (simp_all add: unat_utf8_unit del: of_nat_add)
    have cp: "unat ?a mod 8 * 262144 + unat ?b mod 64 * 4096 + unat ?c mod 64 * 64
              + unat ?d mod 64 = cp"
      unfolding a b c d using lt split4 [of cp] by (simp add: lead_mod)
    have "replace_multibyteSeq (?a # ?b # ?c # ?d # rest) =
      (case fromCodePoint (unat ?a mod 8 * 262144 + unat ?b mod 64 * 4096 + unat ?c mod 64 * 64
              + unat ?d mod 64) of
        Inl e \<Rightarrow> Inl e
      | Inr c \<Rightarrow>
          (case replace_multibyteSeq rest of Inl e \<Rightarrow> Inl e | Inr t \<Rightarrow> Inr (c @ t)))"
      using lt by (intro replace_four) (simp_all add: a b c d isContinuation_def del: of_nat_add)
    moreover have "map ucast (utf8_bytes cp) @ rest = ?a # ?b # ?c # ?d # rest"
      using 4 by (simp add: utf8_bytes_def del: of_nat_add)
    ultimately show ?thesis
      unfolding cp fromCodePoint_ok [OF assms] by simp
  qed
qed

lemma code_points_le: "cp \<in> set (code_points v) \<Longrightarrow> cp \<le> 0x10FFFF"
proof (induction v arbitrary: cp rule: code_points.induct)
  case 1
  then show ?case by simp
next
  case (2 u)
  then show ?case using unat_unit_lt [of u] by simp
next
  case (3 h l rest)
  then show ?case
    using unat_unit_lt [of h] pair_code_point_range(2) [of h l]
    by (auto split: if_splits)
qed

lemma utf16_units_single: "utf16_units (unat (u :: codeunit)) = [u]"
  using unat_unit_lt [of u] by (simp add: utf16_units_def)

lemma utf16_units_pair:
  assumes "isHighSurrogate h" "isLowSurrogate l"
  shows "utf16_units ((unat h - 0xD800) * 0x400 + (unat l - 0xDC00) + 0x10000) = [h, l]"
proof -
  have h: "0xD800 \<le> unat h" and l: "0xDC00 \<le> unat l" and l2: "unat l - 0xDC00 < 0x400"
    using assms unfolding isHighSurrogate_def isLowSurrogate_def by arith+
  have "((unat h - 0xD800) * 0x400 + (unat l - 0xDC00)) div 0x400 = unat h - 0xD800"
    using l2 by simp
  moreover have "((unat h - 0xD800) * 0x400 + (unat l - 0xDC00)) mod 0x400 = unat l - 0xDC00"
    using l2 by simp
  ultimately show ?thesis
    using h l by (simp add: utf16_units_def)
qed

lemma utf16_units_code_points: "concat (map utf16_units (code_points v)) = v"
  by (induction v rule: code_points.induct)
     (simp_all add: utf16_units_single utf16_units_pair del: of_nat_add)

lemma replace_utf8:
  "\<forall>cp \<in> set cps. cp \<le> 0x10FFFF \<Longrightarrow>
   replace_multibyteSeq (map ucast (concat (map utf8_bytes cps)))
     = Inr (concat (map utf16_units cps))"
proof (induction cps)
  case Nil
  then show ?case by simp
next
  case (Cons cp cps)
  then have "cp \<le> 0x10FFFF" by simp
  from replace_utf8_bytes [OF this, of "map ucast (concat (map utf8_bytes cps))"]
  show ?case using Cons by simp
qed

lemma replace_utf8_code_points:
  "replace_multibyteSeq (map ucast (concat (map utf8_bytes (code_points v)))) = Inr v"
  using replace_utf8 [of "code_points v"] code_points_le
  by (simp add: utf16_units_code_points)

subsection \<open>Round trip on the \<open>atob\<close> path\<close>

lemma fromUrlSafe_toUrlSafe:
  "45 \<notin> set e \<Longrightarrow> 95 \<notin> set e \<Longrightarrow> fromUrlSafe (toUrlSafe e) = e"
  by (induction e) (auto simp add: fromUrlSafe_def toUrlSafe_def replace_char_def)


lemma base64_encode_not_urlsafe: "45 \<notin> set (base64_encode bs) \<and> 95 \<notin> set (base64_encode bs)"
proof -
  have "\<And>x. x \<in> set (sextets bs) \<Longrightarrow> b64char x \<noteq> 45 \<and> b64char x \<noteq> 95"
    using b64char_not_urlsafe sextets_lt by blast
  then show ?thesis
    by (auto simp add: base64_encode_def padChar_def)
qed

lemma remove_char_not_urlsafe:
  "45 \<notin> set e \<and> 95 \<notin> set e \<Longrightarrow> 45 \<notin> set (remove_char c e) \<and> 95 \<notin> set (remove_char c e)"
  by (simp add: remove_char_def)

lemma remove_char_toUrlSafe:
  "remove_char padChar (toUrlSafe e) = toUrlSafe (remove_char padChar e)"
  by (induction e) (auto simp add: remove_char_def toUrlSafe_def replace_char_def padChar_def)

lemma fromUrlSafe_finish:
  "fromUrlSafe (finish pad (base64_encode bs)) =
     (if pad then base64_encode bs else remove_char padChar (base64_encode bs))"
  using base64_encode_not_urlsafe [of bs]
    remove_char_not_urlsafe [OF base64_encode_not_urlsafe, of padChar bs]
  by (simp add: finish_def remove_char_toUrlSafe fromUrlSafe_toUrlSafe)

lemma atob_finish: "atob (fromUrlSafe (finish pad (base64_encode bs))) = Inr (map ucast bs)"
  by (simp add: fromUrlSafe_finish atob_base64_encode atob_base64_encode_unpadded)

lemma roundtrip_manual:
  "\<exists>e. encodeValue False pad v = Inr e \<and> decodeValue False e = Inr v"
  by (simp add: encodeValue_manual decodeValue_def atob_finish replace_utf8_code_points)

subsection \<open>Round trip on the \<open>Buffer\<close> path\<close>

lemma unat_byte_of_nat: "n < 256 \<Longrightarrow> unat (word_of_nat n :: byte) = n"
  by (simp add: unat_of_nat)

lemma mid_digit1: "(cp::nat) div 64 mod 64 = cp mod 4096 div 64"
  using mod_mult2_eq [of cp 64 64] by simp

lemma mid_digit2: "(cp::nat) div 4096 mod 64 = cp mod 262144 div 4096"
  using mod_mult2_eq [of cp 4096 64] by simp

lemma digit_le:
  "(cp::nat) mod 64 \<le> 63" "(cp::nat) div 64 mod 64 \<le> 63" "(cp::nat) div 4096 mod 64 \<le> 63"
proof -
  have "cp mod 64 < 64" "cp div 64 mod 64 < 64" "cp div 4096 mod 64 < 64"
    by simp_all
  then show "cp mod 64 \<le> 63" "cp div 64 mod 64 \<le> 63" "cp div 4096 mod 64 \<le> 63"
    by linarith+
qed

lemma utf8_sequence_utf8_bytes:
  assumes "scalar_value cp"
  shows "utf8_sequence (utf8_bytes cp @ rest) = Some (cp, rest)"
proof -
  from assms have le: "cp \<le> 0x10FFFF" and ns: "cp < 0xD800 \<or> 0xDFFF < cp"
    by (auto simp add: scalar_value_def)
  consider "cp < 0x80" | "0x80 \<le> cp" "cp < 0x800" | "0x800 \<le> cp" "cp < 0x10000"
    | "0x10000 \<le> cp"
    by linarith
  then show ?thesis
  proof cases
    case 1
    then show ?thesis
      by (simp add: utf8_bytes_def unat_byte_of_nat)
  next
    case 2
    let ?a = "word_of_nat (0xC0 + cp div 64) :: byte"
    let ?b = "word_of_nat (0x80 + cp mod 64) :: byte"
    have q: "2 \<le> cp div 64" "cp div 64 < 32" using 2 by simp_all
    have a: "unat ?a = 0xC0 + cp div 64" and b: "unat ?b = 0x80 + cp mod 64"
      using q by (simp_all add: unat_byte_of_nat del: of_nat_add)
    have e: "utf8_bytes cp @ rest = ?a # ?b # rest"
      using 2 by (simp add: utf8_bytes_def del: of_nat_add)
    show ?thesis
      unfolding e utf8_sequence.simps inRange_def
      using q digit_le [of cp] by (simp add: a b del: of_nat_add)
  next
    case 3
    let ?a = "word_of_nat (0xE0 + cp div 4096) :: byte"
    let ?b = "word_of_nat (0x80 + cp div 64 mod 64) :: byte"
    let ?c = "word_of_nat (0x80 + cp mod 64) :: byte"
    have q: "cp div 4096 < 16" using 3 by simp
    have lo: "cp div 4096 = 0 \<Longrightarrow> 32 \<le> cp div 64 mod 64"
    proof -
      assume "cp div 4096 = 0"
      then have "cp < 4096" by (simp add: div_eq_0_iff)
      then have "cp div 64 < 64" by simp
      moreover have "32 \<le> cp div 64" using 3 by simp
      ultimately show ?thesis by simp
    qed
    have hi: "cp div 4096 = 13 \<Longrightarrow> cp div 64 mod 64 < 32"
    proof -
      assume d: "cp div 4096 = 13"
      have cp: "cp = 13 * 4096 + cp mod 4096"
        using div_mult_mod_eq [of cp 4096] d by simp
      moreover have "cp mod 4096 < 4096" by simp
      ultimately have "cp < 57344" by linarith
      with ns have "cp < 0xD800" by simp
      with cp have "cp mod 4096 < 2048" by linarith
      then have "cp mod 4096 div 64 < 32" by simp
      then show ?thesis by (simp add: mid_digit1 mid_digit2)
    qed
    have a: "unat ?a = 0xE0 + cp div 4096" and b: "unat ?b = 0x80 + cp div 64 mod 64"
      and c: "unat ?c = 0x80 + cp mod 64"
      using q by (simp_all add: unat_byte_of_nat del: of_nat_add)
    have e: "utf8_bytes cp @ rest = ?a # ?b # ?c # rest"
      using 3 by (simp add: utf8_bytes_def del: of_nat_add)
    show ?thesis
      unfolding e utf8_sequence.simps inRange_def
      using q lo hi split3 [of cp] digit_le [of cp] by (auto simp add: a b c simp del: of_nat_add)
  next
    case 4
    let ?a = "word_of_nat (0xF0 + cp div 262144) :: byte"
    let ?b = "word_of_nat (0x80 + cp div 4096 mod 64) :: byte"
    let ?c = "word_of_nat (0x80 + cp div 64 mod 64) :: byte"
    let ?d = "word_of_nat (0x80 + cp mod 64) :: byte"
    have q: "cp div 262144 \<le> 4" using le by simp
    have lo: "cp div 262144 = 0 \<Longrightarrow> 16 \<le> cp div 4096 mod 64"
    proof -
      assume "cp div 262144 = 0"
      then have "cp < 262144" by (simp add: div_eq_0_iff)
      then have "cp div 4096 < 64" by simp
      moreover have "16 \<le> cp div 4096" using 4 by simp
      ultimately show ?thesis by simp
    qed
    have hi: "cp div 262144 = 4 \<Longrightarrow> cp div 4096 mod 64 < 16"
    proof -
      assume d: "cp div 262144 = 4"
      have "cp = 4 * 262144 + cp mod 262144"
        using div_mult_mod_eq [of cp 262144] d by simp
      then have "cp mod 262144 < 65536" using le by simp
      then have "cp mod 262144 div 4096 < 16" by simp
      then show ?thesis by (simp add: mid_digit1 mid_digit2)
    qed
    have a: "unat ?a = 0xF0 + cp div 262144" and b: "unat ?b = 0x80 + cp div 4096 mod 64"
      and c: "unat ?c = 0x80 + cp div 64 mod 64" and d: "unat ?d = 0x80 + cp mod 64"
      using q by (simp_all add: unat_byte_of_nat del: of_nat_add)
    have e: "utf8_bytes cp @ rest = ?a # ?b # ?c # ?d # rest"
      using 4 by (simp add: utf8_bytes_def del: of_nat_add)
    show ?thesis
      unfolding e utf8_sequence.simps inRange_def
      using q lo hi split4 [of cp] digit_le [of cp] by (auto simp add: a b c d simp del: of_nat_add)
  qed
qed

lemma Buffer_toString_utf8_bytes:
  assumes "scalar_value cp"
  shows "Buffer_toString (utf8_bytes cp @ rest) = utf16_units cp @ Buffer_toString rest"
proof -
  obtain a r where e: "utf8_bytes cp @ rest = a # r"
    by (cases "utf8_bytes cp @ rest") (auto simp add: utf8_bytes_def split: if_splits)
  have "utf8_sequence (a # r) = Some (cp, rest)"
    using utf8_sequence_utf8_bytes [OF assms, of rest] by (simp only: e)
  then show ?thesis
    unfolding e by (simp del: utf8_sequence.simps)
qed

lemma Buffer_toString_utf8:
  "\<forall>cp \<in> set cps. scalar_value cp \<Longrightarrow>
   Buffer_toString (concat (map utf8_bytes cps)) = concat (map utf16_units cps)"
  by (induction cps) (simp_all add: Buffer_toString_utf8_bytes)

lemma unit_scalar_value:
  assumes "\<not> isHighSurrogate u" "\<not> isLowSurrogate u"
  shows "scalar_value (unat u)"
proof -
  have "unat u < 0xD800 \<or> 0xDFFF < unat u"
    using assms unfolding isHighSurrogate_def isLowSurrogate_def by linarith
  moreover have "unat u \<le> 0x10FFFF"
    using unat_unit_lt [of u] by simp
  ultimately show ?thesis
    unfolding scalar_value_def by linarith
qed

lemma pair_scalar_value:
  assumes "isHighSurrogate h" "isLowSurrogate l"
  shows "scalar_value ((unat h - 0xD800) * 0x400 + (unat l - 0xDC00) + 0x10000)"
  using pair_code_point_range [OF assms] unfolding scalar_value_def by linarith

lemma wellFormed_scalar_values:
  "wellFormed v \<Longrightarrow> cp \<in> set (code_points v) \<Longrightarrow> scalar_value cp"
proof (induction v arbitrary: cp rule: code_points.induct)
  case 1
  then show ?case by simp
next
  case (2 u)
  then show ?case by (simp add: unit_scalar_value)
next
  case (3 h l rest)
  show ?case
  proof (cases "isHighSurrogate h \<and> isLowSurrogate l")
    case True
    with 3 show ?thesis
      by (auto simp add: pair_scalar_value simp del: of_nat_add)
  next
    case False
    with 3 show ?thesis
      by (auto simp add: unit_scalar_value)
  qed
qed

lemma Buffer_roundtrip: "wellFormed v \<Longrightarrow> Buffer_toString (Buffer_from v) = v"
  using Buffer_toString_utf8 [of "code_points v"] wellFormed_scalar_values [of v]
  by (simp add: Buffer_from_wellFormed utf16_units_code_points)

lemma node_unbase64_b64char: "n < 64 \<Longrightarrow> node_unbase64 (b64char n) = Some n"
  using b64char_not_urlsafe [of n] by (simp add: node_unbase64_def b64index_b64char)

lemma map_filter_node_unbase64:
  "\<forall>x \<in> set sx. x < 64 \<Longrightarrow> List.map_filter node_unbase64 (map b64char sx) = sx"
  by (induction sx) (simp_all add: node_unbase64_b64char)

lemma takeWhile_not_pad:
  "\<forall>x \<in> set sx. x < 64 \<Longrightarrow>
   takeWhile (\<lambda>u. u \<noteq> padChar) (map b64char sx @ replicate p padChar) = map b64char sx"
proof (induction sx)
  case Nil
  then show ?case by (cases p) simp_all
next
  case (Cons x sx)
  then show ?case by (simp add: b64char_not_pad)
qed

lemma Buffer_from_base64_b64:
  assumes "\<forall>x \<in> set sx. x < 64"
  shows "Buffer_from_base64 (map b64char sx @ replicate p padChar) = sextets_to_bytes sx"
  unfolding Buffer_from_base64_def takeWhile_not_pad [OF assms] map_filter_node_unbase64 [OF assms]
  by (rule refl)

lemma Buffer_from_base64_encode:
  "Buffer_from_base64 (base64_encode bs) = bs"
  "Buffer_from_base64 (remove_char padChar (base64_encode bs)) = bs"
proof -
  have lt: "\<forall>x \<in> set (sextets bs). x < 64" using sextets_lt by blast
  show "Buffer_from_base64 (base64_encode bs) = bs"
    unfolding base64_encode_def Buffer_from_base64_b64 [OF lt] by (rule sextets_to_bytes_sextets)
  have "remove_char padChar (base64_encode bs) = map b64char (sextets bs) @ replicate 0 padChar"
    by (simp add: base64_encode_def remove_char_b64 [OF lt])
  then show "Buffer_from_base64 (remove_char padChar (base64_encode bs)) = bs"
    unfolding Buffer_from_base64_b64 [OF lt] by (simp only: Buffer_from_base64_b64 [OF lt] sextets_to_bytes_sextets)
qed

lemma roundtrip_node:
  "wellFormed v \<Longrightarrow> \<exists>e. encodeValue True pad v = Inr e \<and> decodeValue True e = Inr v"
  by (simp add: encodeValue_node decodeValue_def fromUrlSafe_finish Buffer_from_base64_encode
      Buffer_roundtrip)

subsection \<open>The loops\<close>

lemma encodeLoop_map:
  "encodeLoop runningInNode pad vs =
   Inr (map (\<lambda>v. finish pad (base64_encode
          (if runningInNode then Buffer_from v else concat (map utf8_bytes (code_points v))))) vs)"
  by (induction vs) (simp_all add: encodeValue_total)

lemma decodeLoop_Inr_iff:
  "decodeLoop runningInNode vs = Inr rs \<longleftrightarrow>
   length rs = length vs \<and> (\<forall>i < length vs. decodeValue runningInNode (vs ! i) = Inr (rs ! i))"
proof (induction vs arbitrary: rs)
  case Nil
  then show ?case by auto
next
  case (Cons v vs)
  show ?case
  proof (cases rs)
    case Nil
    then show ?thesis by (simp split: sum.splits)
  next
    case (Cons r rs')
    then show ?thesis
      using Cons.IH [of rs']
      by (auto simp add: nth_Cons less_Suc_eq_0_disj split: sum.splits nat.splits)
  qed
qed

lemma encodeLoop_Inr_iff:
  "encodeLoop runningInNode pad vs = Inr rs \<longleftrightarrow>
   length rs = length vs \<and>
   (\<forall>i < length vs. encodeValue runningInNode pad (vs ! i) = Inr (rs ! i))"
proof (induction vs arbitrary: rs)
  case Nil
  then show ?case by auto
next
  case (Cons v vs)
  show ?case
  proof (cases rs)
    case Nil
    then show ?thesis by (simp split: sum.splits)
  next
    case (Cons r rs')
    then show ?thesis
      using Cons.IH [of rs']
      by (auto simp add: nth_Cons less_Suc_eq_0_disj split: sum.splits nat.splits)
  qed
qed

lemma decodeLoop_map:
  "\<forall>v \<in> set vs. decodeValue runningInNode (f v) = Inr v \<Longrightarrow>
   decodeLoop runningInNode (map f vs) = Inr vs"
  by (induction vs) simp_all

lemma roundtrip_value:
  assumes "runningInNode \<longrightarrow> wellFormed v"
  shows "decodeValue runningInNode (finish pad (base64_encode
          (if runningInNode then Buffer_from v else concat (map utf8_bytes (code_points v)))))
         = Inr v"
proof (cases runningInNode)
  case True
  with assms roundtrip_node [of v pad] show ?thesis
    by (simp add: encodeValue_node)
next
  case False
  with roundtrip_manual [of pad v] show ?thesis
    by (simp add: encodeValue_manual)
qed

subsection \<open>Test vectors\<close>

lemma encodeValue_hello_manual:
  "encodeValue False False (js ''Hello TensorFlow.js!'') = Inr (js ''SGVsbG8gVGVuc29yRmxvdy5qcyE'')"
  unfolding encodeValue_def
  apply (simp add: js_def isHighSurrogate_def isLowSurrogate_def utf16ToUtf8Multibyte_def)
  apply (simp add: btoa_def base64_encode_def b64char_def padChar_def)
  apply (simp add: toUrlSafe_def replace_char_def remove_char_def)
  done

lemma encodeValue_hello_node:
  "encodeValue True False (js ''Hello TensorFlow.js!'') = Inr (js ''SGVsbG8gVGVuc29yRmxvdy5qcyE'')"
  unfolding encodeValue_def
  apply (simp add: js_def isHighSurrogate_def isLowSurrogate_def utf8_bytes_def)
  apply (simp add: base64_encode_def b64char_def padChar_def)
  apply (simp add: toUrlSafe_def replace_char_def remove_char_def)
  done

lemma encodeValue_tetragram_manual:
  "encodeValue False False [0xD834, 0xDF06] = Inr (js ''8J2Mhg'')"
  unfolding encodeValue_def
  apply (simp add: js_def isHighSurrogate_def isLowSurrogate_def utf16ToUtf8Multibyte_def
      fromCharCode_def)
  apply (simp add: btoa_def base64_encode_def b64char_def padChar_def)
  apply (simp add: toUrlSafe_def replace_char_def remove_char_def)
  done

lemma encodeValue_tetragram_node:
  "encodeValue True False [0xD834, 0xDF06] = Inr (js ''8J2Mhg'')"
  unfolding encodeValue_def
  apply (simp add: js_def isHighSurrogate_def isLowSurrogate_def utf8_bytes_def)
  apply (simp add: base64_encode_def b64char_def padChar_def)
  apply (simp add: toUrlSafe_def replace_char_def remove_char_def)
  done

lemma encodeValue_empty: "encodeValue runningInNode pad [] = Inr []"
  by (cases runningInNode)
     (simp_all add: encodeValue_def btoa_def base64_encode_def toUrlSafe_def replace_char_def
        remove_char_def)

lemma encodeValue_doc_manual:
  "encodeValue False False (js ''anything else for you going on here?'')
   = Inr (js ''YW55dGhpbmcgZWxzZSBmb3IgeW91IGdvaW5nIG9uIGhlcmU_'')"
  unfolding encodeValue_def
  apply (simp add: js_def isHighSurrogate_def isLowSurrogate_def utf16ToUtf8Multibyte_def)
  apply (simp add: btoa_def base64_encode_def b64char_def padChar_def)
  apply (simp add: toUrlSafe_def replace_char_def remove_char_def)
  done

lemma wellFormed_hello: "wellFormed (js ''Hello TensorFlow.js!'')"
  by (simp add: js_def isHighSurrogate_def isLowSurrogate_def)

subsection \<open>The encoding in the words of the specification\<close>

lemma toUrlSafe_spec: "toUrlSafe str = spec_url_safe str"
  by (induction str) (simp_all add: toUrlSafe_def spec_url_safe_def replace_char_def)

lemma spec_strip_trailing_pad_append:
  assumes "padChar \<notin> set str"
  shows "spec_strip_trailing_pad (str @ replicate p padChar) = str"
proof -
  have "dropWhile (\<lambda>u. u = padChar) (rev str) = rev str"
    using assms by (cases "rev str") (auto simp add: dropWhile_eq_self_iff)
  moreover have "dropWhile (\<lambda>u. u = padChar) (replicate p padChar @ rev str)
      = dropWhile (\<lambda>u. u = padChar) (rev str)"
    by (rule dropWhile_append2) simp
  ultimately show ?thesis
    by (simp add: spec_strip_trailing_pad_def)
qed

lemma finish_spec:
  "finish pad (base64_encode bs) =
     (if pad then spec_url_safe (base64_encode bs)
      else spec_strip_trailing_pad (spec_url_safe (base64_encode bs)))"
proof -
  have "spec_strip_trailing_pad (toUrlSafe (base64_encode bs))
        = toUrlSafe (map b64char (sextets bs))"
    using toUrlSafe_no_pad [OF b64chars_no_pad, of bs]
    by (simp add: base64_encode_def toUrlSafe_append toUrlSafe_pad
        spec_strip_trailing_pad_append)
  moreover have "remove_char padChar (toUrlSafe (base64_encode bs))
        = toUrlSafe (map b64char (sextets bs))"
    using toUrlSafe_no_pad [OF b64chars_no_pad, of bs]
    by (simp add: base64_encode_def toUrlSafe_append toUrlSafe_pad
        remove_char_append_replicate)
  ultimately show ?thesis
    by (simp add: finish_def toUrlSafe_spec)
qed

lemma encode_paths_differ_unpaired_surrogate:
  "encodeValue False False [0xD834] = Inr (js ''7aC0'')"
  "encodeValue True False [0xD834] = Inr (js ''77-9'')"
  unfolding encodeValue_def
   apply (simp add: js_def isHighSurrogate_def isLowSurrogate_def utf16ToUtf8Multibyte_def
      fromCharCode_def btoa_def base64_encode_def b64char_def padChar_def toUrlSafe_def
      replace_char_def remove_char_def)
  apply (simp add: js_def isHighSurrogate_def isLowSurrogate_def utf8_bytes_def
      base64_encode_def b64char_def padChar_def toUrlSafe_def replace_char_def remove_char_def)
  done

lemma decodeValue_encodeValue_manual:
  "encodeValue False pad v = Inr e \<Longrightarrow> decodeValue False e = Inr v"
  using roundtrip_manual [of pad v] by auto

lemma decodeValue_hello_manual:
  "decodeValue False (js ''SGVsbG8gVGVuc29yRmxvdy5qcyE'') = Inr (js ''Hello TensorFlow.js!'')"
  by (rule decodeValue_encodeValue_manual [OF encodeValue_hello_manual])

lemma decodeValue_tetragram_manual:
  "decodeValue False (js ''8J2Mhg'') = Inr [0xD834, 0xDF06]"
  by (rule decodeValue_encodeValue_manual [OF encodeValue_tetragram_manual])

lemma decodeValue_doc_example:
  "decodeValue False (js ''YW55dGhpbmcgZWxzZSBmb3IgeW91IGdvaW5nIG9uIGhlcmU_'')
   = Inr (js ''anything else for you going on here?'')"
  by (rule decodeValue_encodeValue_manual [OF encodeValue_doc_manual])

subsection \<open>Decoding of malformed input\<close>

lemma decodeLoop_fails:
  "i < length vs \<Longrightarrow> decodeValue runningInNode (vs ! i) = Inl e0 \<Longrightarrow>
   \<exists>j\<le>i. \<exists>e. decodeLoop runningInNode vs = Inl e
       \<and> decodeValue runningInNode (vs ! j) = Inl e
       \<and> (\<forall>k<j. \<exists>s. decodeValue runningInNode (vs ! k) = Inr s)"
proof (induction vs arbitrary: i)
  case Nil
  then show ?case by simp
next
  case (Cons v vs)
  show ?case
  proof (cases "decodeValue runningInNode v")
    case (Inl e)
    then have "decodeLoop runningInNode (v # vs) = Inl e
       \<and> decodeValue runningInNode ((v # vs) ! 0) = Inl e
       \<and> (\<forall>k<0. \<exists>s. decodeValue runningInNode ((v # vs) ! k) = Inr s)"
      by simp
    then show ?thesis by blast
  next
    case (Inr s)
    with Cons.prems obtain i' where i': "i = Suc i'"
      by (cases i) auto
    with Cons.prems have "i' < length vs" "decodeValue runningInNode (vs ! i') = Inl e0"
      by simp_all
    from Cons.IH [OF this] obtain j e where j: "j \<le> i'"
      and e: "decodeLoop runningInNode vs = Inl e"
      "decodeValue runningInNode (vs ! j) = Inl e"
      "\<forall>k<j. \<exists>s. decodeValue runningInNode (vs ! k) = Inr s"
      by blast
    have "\<forall>k<Suc j. \<exists>s. decodeValue runningInNode ((v # vs) ! k) = Inr s"
      using e(3) Inr by (auto simp add: nth_Cons split: nat.splits)
    then have "Suc j \<le> i \<and> decodeLoop runningInNode (v # vs) = Inl e
       \<and> decodeValue runningInNode ((v # vs) ! Suc j) = Inl e
       \<and> (\<forall>k<Suc j. \<exists>s. decodeValue runningInNode ((v # vs) ! k) = Inr s)"
      using j e i' Inr by simp
    then show ?thesis by blast
  qed
qed

lemma atob_gA: "atob (fromUrlSafe (js ''gA'')) = Inr [0x80]"
  apply (simp add: js_def fromUrlSafe_def replace_char_def)
  apply (simp add: atob_def isAsciiWhitespace_def dropLastPad_def padChar_def b64index_def)
  done

lemma decodeValue_gA_manual: "decodeValue False (js ''gA'') = Inr [0x80]"
  by (simp add: decodeValue_def atob_gA)

lemma decodeValue_gA_node: "decodeValue True (js ''gA'') = Inr [0xFFFD]"
  apply (simp add: decodeValue_def js_def fromUrlSafe_def replace_char_def)
  apply (simp add: Buffer_from_base64_def padChar_def node_unbase64_def b64index_def
      inRange_def)
  done

lemma decodeValue_bangs_node: "decodeValue True (js ''!!!!'') = Inr []"
  apply (simp add: decodeValue_def js_def fromUrlSafe_def replace_char_def)
  apply (simp add: Buffer_from_base64_def padChar_def node_unbase64_def b64index_def)
  done

lemma atob_A: "atob (fromUrlSafe (js ''A'')) = Inl InvalidCharacterError"
  apply (simp add: js_def fromUrlSafe_def replace_char_def)
  apply (simp add: atob_def isAsciiWhitespace_def dropLastPad_def padChar_def b64index_def)
  done

lemma not_valid_utf8_80: "\<not> valid_utf8 [0x80]"
  by (simp add: inRange_def)

lemma decodeValue_atob_fails:
  "atob (fromUrlSafe v) = Inl e \<Longrightarrow> decodeValue False v = Inl e"
  by (simp add: decodeValue_def)

lemma decodeValue_RangeError: "decodeValue False (js ''9JCAgA'') = Inl RangeError"
  apply (simp add: decodeValue_def js_def fromUrlSafe_def replace_char_def)
  apply (simp add: atob_def isAsciiWhitespace_def dropLastPad_def padChar_def b64index_def)
  apply (simp add: isContinuation_def utf8MultibyteToUtf16_def charCodeAt_def fromCodePoint_def)
  done

subsection \<open>The loop over the store\<close>

lemma array_assign_last:
  "i < length arr \<Longrightarrow>
   array_assign (h0 @ [arr]) (length h0) i v = h0 @ [arr[i := Some v]]"
  by (simp add: array_assign_def Let_def)

lemma for_loop_store_run:
  assumes "values < length h0" "h0 ! values = map Some vs" "length arr = length vs"
    "i \<le> length vs"
  shows "for_loop_store body (h0 @ [arr]) values (length h0) i =
     (case run_body body (drop i vs) of
        (bs, eo) \<Rightarrow> (h0 @ [take i arr @ map Some bs @ drop (i + length bs) arr], eo))"
  using assms
proof (induction "length vs - i" arbitrary: i arr)
  case 0
  then have i: "i = length vs" by simp
  have v: "(h0 @ [arr]) ! values = map Some vs"
    using "0.prems" by (simp add: nth_append)
  show ?case
    using "0.prems"(3) by (subst for_loop_store.simps) (simp add: v i)
next
  case (Suc n)
  then have i: "i < length vs" by simp
  have v: "(h0 @ [arr]) ! values = map Some vs"
    using Suc.prems by (simp add: nth_append)
  have d: "drop i vs = vs ! i # drop (Suc i) vs"
    using i by (simp add: Cons_nth_drop_Suc)
  show ?case
  proof (cases "body (vs ! i)")
    case (Inl e)
    then show ?thesis
      using i by (subst for_loop_store.simps) (simp add: v d)
  next
    case (Inr b)
    let ?arr = "arr[i := Some b]"
    have n: "n = length vs - Suc i" using Suc.hyps(2) by simp
    have l: "length ?arr = length vs" using Suc.prems(3) by simp
    have IH: "for_loop_store body (h0 @ [?arr]) values (length h0) (Suc i) =
     (case run_body body (drop (Suc i) vs) of
        (bs, eo) \<Rightarrow>
          (h0 @ [take (Suc i) ?arr @ map Some bs @ drop (Suc i + length bs) ?arr], eo))"
      using Suc.hyps(1) [OF n Suc.prems(1) Suc.prems(2) l] i by simp
    have t: "take (Suc i) ?arr = take i arr @ [Some b]"
      using i Suc.prems(3) by (simp add: take_Suc_conv_app_nth)
    have "for_loop_store body (h0 @ [arr]) values (length h0) i =
          for_loop_store body (h0 @ [?arr]) values (length h0) (Suc i)"
      using i Suc.prems(3)
      by (subst for_loop_store.simps) (simp add: v Inr array_assign_last)
    then show ?thesis
      unfolding IH d by (simp add: Inr t split: prod.split)
  qed
qed

lemma encodeLoop_run_body:
  "encodeLoop runningInNode pad vs =
     (case run_body (encodeValue runningInNode pad) vs of
        (bs, None) \<Rightarrow> Inr bs
      | (bs, Some e) \<Rightarrow> Inl e)"
  by (induction vs) (simp_all split: sum.split prod.split option.split)

lemma decodeLoop_run_body:
  "decodeLoop runningInNode vs =
     (case run_body (decodeValue runningInNode) vs of
        (bs, None) \<Rightarrow> Inr bs
      | (bs, Some e) \<Rightarrow> Inl e)"
  by (induction vs) (simp_all split: sum.split prod.split option.split)

lemma run_body_length: "run_body body vs = (bs, None) \<Longrightarrow> length bs = length vs"
  by (induction vs arbitrary: bs) (auto split: sum.splits prod.splits)

lemma encodeBase64_store_result:
  assumes "dataId str < length h" "h ! dataId str = map Some vs"
    "prod_list (ref_shape str) = length vs"
  shows "encodeBase64_store runningInNode h str pad =
     (case run_body (encodeValue runningInNode pad) vs of
        (bs, None) \<Rightarrow>
          (h @ [map Some bs],
           Inr \<lparr>ref_shape = ref_shape str, ref_dtype = ref_dtype str, dataId = length h\<rparr>)
      | (bs, Some e) \<Rightarrow>
          (h @ [map Some bs @ replicate (length vs - length bs) None], Inl e))"
proof -
  obtain bs eo where r: "run_body (encodeValue runningInNode pad) vs = (bs, eo)"
    by (cases "run_body (encodeValue runningInNode pad) vs")
  have "for_loop_store (encodeValue runningInNode pad) (h @ [replicate (length vs) None])
          (dataId str) (length h) 0 =
        (h @ [map Some bs @ drop (length bs) (replicate (length vs) None)], eo)"
    using for_loop_store_run [OF assms(1) assms(2), of "replicate (length vs) None" 0
        "encodeValue runningInNode pad"]
    by (simp add: r)
  then show ?thesis
    using run_body_length [of "encodeValue runningInNode pad" vs bs]
    by (cases eo) (simp_all add: encodeBase64_store_def new_Array_def assms(3) r)
qed

lemma decodeBase64_store_result:
  assumes "dataId str < length h" "h ! dataId str = map Some vs"
    "prod_list (ref_shape str) = length vs"
  shows "decodeBase64_store runningInNode h str =
     (case run_body (decodeValue runningInNode) vs of
        (bs, None) \<Rightarrow>
          (h @ [map Some bs],
           Inr \<lparr>ref_shape = ref_shape str, ref_dtype = ref_dtype str, dataId = length h\<rparr>)
      | (bs, Some e) \<Rightarrow>
          (h @ [map Some bs @ replicate (length vs - length bs) None], Inl e))"
proof -
  obtain bs eo where r: "run_body (decodeValue runningInNode) vs = (bs, eo)"
    by (cases "run_body (decodeValue runningInNode) vs")
  have "for_loop_store (decodeValue runningInNode) (h @ [replicate (length vs) None])
          (dataId str) (length h) 0 =
        (h @ [map Some bs @ drop (length bs) (replicate (length vs) None)], eo)"
    using for_loop_store_run [OF assms(1) assms(2), of "replicate (length vs) None" 0
        "decodeValue runningInNode"]
    by (simp add: r)
  then show ?thesis
    using run_body_length [of "decodeValue runningInNode" vs bs]
    by (cases eo) (simp_all add: decodeBase64_store_def new_Array_def assms(3) r)
qed

section \<open>The claims\<close>

text \<open>C1. Round trip: when the values of a tensor are valid Unicode strings,
  \<open>decodeBase64\<close> applied to the result of \<open>encodeBase64\<close> returns the tensor, for
  either value of \<open>pad\<close>. On the \<open>atob\<close>/\<open>btoa\<close> path (\<open>runningInNode\<close> false) this
  holds for every string, valid or not.\<close>

theorem base64_roundtrip:
  assumes "runningInNode \<longrightarrow> list_all wellFormed (dataSync str)"
  shows "\<exists>enc. encodeBase64 runningInNode str pad = Inr enc
               \<and> decodeBase64 runningInNode enc = Inr str"
proof -
  let ?f = "\<lambda>v. finish pad (base64_encode
          (if runningInNode then Buffer_from v else concat (map utf8_bytes (code_points v))))"
  have "\<forall>v \<in> set (dataSync str). decodeValue runningInNode (?f v) = Inr v"
  proof
    fix v
    assume "v \<in> set (dataSync str)"
    with assms have "runningInNode \<longrightarrow> wellFormed v"
      by (simp add: list_all_iff)
    then show "decodeValue runningInNode (?f v) = Inr v"
      by (rule roundtrip_value)
  qed
  then have "decodeLoop runningInNode (map ?f (dataSync str)) = Inr (dataSync str)"
    by (rule decodeLoop_map)
  then show ?thesis
    by (simp add: encodeBase64_def decodeBase64_def encodeLoop_map)
qed

text \<open>The round trip at the test vector: the unpadded encoding of
  \<open>Hello TensorFlow.js!\<close> decodes back on both paths.\<close>

theorem base64_roundtrip_witness:
  "list_all wellFormed [js ''Hello TensorFlow.js!'']
   \<and> decodeBase64 True \<lparr>shape = [], dtype = ''string'',
                           dataSync = [js ''SGVsbG8gVGVuc29yRmxvdy5qcyE'']\<rparr>
       = Inr \<lparr>shape = [], dtype = ''string'', dataSync = [js ''Hello TensorFlow.js!'']\<rparr>
   \<and> decodeBase64 False \<lparr>shape = [], dtype = ''string'',
                           dataSync = [js ''SGVsbG8gVGVuc29yRmxvdy5qcyE'']\<rparr>
       = Inr \<lparr>shape = [], dtype = ''string'', dataSync = [js ''Hello TensorFlow.js!'']\<rparr>"
  using base64_roundtrip [of True "\<lparr>shape = [], dtype = ''string'',
          dataSync = [js ''Hello TensorFlow.js!'']\<rparr>" False]
    base64_roundtrip [of False "\<lparr>shape = [], dtype = ''string'',
          dataSync = [js ''Hello TensorFlow.js!'']\<rparr>" False]
  by (simp add: encodeBase64_def encodeValue_hello_node encodeValue_hello_manual wellFormed_hello)

text \<open>C2, as stated, fails for a string with an unpaired surrogate: the two paths
  give different encodings of the one-unit string D834, so no function of the
  string describes both. \<open>Buffer.from\<close> writes U+FFFD (\<open>77-9\<close>); the manual packing
  writes the three-byte form of the specification's table (\<open>7aC0\<close>).\<close>

theorem encode_spec_counterexample:
  "encodeValue True False [0xD834] = Inr (js ''77-9'')
   \<and> spec_encode_one False [0xD834] = js ''7aC0''
   \<and> encodeValue False False [0xD834] = Inr (js ''7aC0'')"
proof -
  have "encodeValue False False [0xD834] = Inr (spec_encode_one False [0xD834])"
    using encodeValue_total [of False False "[0xD834]"]
    by (simp add: finish_spec spec_encode_one_def)
  then show ?thesis
    by (simp add: encode_paths_differ_unpaired_surrogate)
qed

text \<open>C2, amended. For every valid Unicode string, and on the \<open>atob\<close>/\<open>btoa\<close> path for
  every string (an unpaired surrogate taken as its own code point), \<open>encodeBase64\<close>
  computes what the specification words: the UTF-8 bytes of the value, their
  RFC 4648 Base64 encoding with \<open>=\<close> padding, every \<open>+\<close> replaced by \<open>-\<close> and every
  \<open>/\<close> by \<open>_\<close>, and the trailing \<open>=\<close> characters stripped when \<open>pad\<close> is false.\<close>

theorem encode_matches_spec:
  assumes "runningInNode \<longrightarrow> wellFormed v"
  shows "encodeValue runningInNode pad v = Inr (spec_encode_one pad v)"
  using assms
  by (simp add: encodeValue_total finish_spec spec_encode_one_def Buffer_from_wellFormed)

theorem encode_matches_spec_witness:
  "wellFormed (js ''Hello TensorFlow.js!'')
   \<and> spec_encode_one False (js ''Hello TensorFlow.js!'') = js ''SGVsbG8gVGVuc29yRmxvdy5qcyE''"
  using encode_matches_spec [of True "js ''Hello TensorFlow.js!''" False]
  by (simp add: wellFormed_hello encodeValue_hello_node)

text \<open>C3, as stated, fails: Base64 input whose bytes are not valid UTF-8 is
  decoded without any exception. The string \<open>gA\<close> holds the single byte 80, a
  continuation byte with no lead byte: the \<open>atob\<close> path returns it as the code unit
  U+0080 and the \<open>Buffer\<close> path returns U+FFFD. On the \<open>Buffer\<close> path invalid Base64
  does not throw either: \<open>!!!!\<close> decodes to the empty string.\<close>

theorem invalid_utf8_not_rejected:
  "atob (fromUrlSafe (js ''gA'')) = Inr [0x80] \<and> \<not> valid_utf8 [0x80]
   \<and> decodeBase64 False \<lparr>shape = [1], dtype = ''string'', dataSync = [js ''gA'']\<rparr>
       = Inr \<lparr>shape = [1], dtype = ''string'', dataSync = [[0x80]]\<rparr>
   \<and> decodeBase64 True \<lparr>shape = [1], dtype = ''string'', dataSync = [js ''gA'']\<rparr>
       = Inr \<lparr>shape = [1], dtype = ''string'', dataSync = [[0xFFFD]]\<rparr>
   \<and> decodeBase64 True \<lparr>shape = [1], dtype = ''string'', dataSync = [js ''!!!!'']\<rparr>
       = Inr \<lparr>shape = [1], dtype = ''string'', dataSync = [[]]\<rparr>"
  by (simp add: atob_gA not_valid_utf8_80 decodeBase64_def decodeValue_gA_manual
      decodeValue_gA_node decodeValue_bangs_node)

text \<open>C3, amended. On the \<open>atob\<close> path, when the input holds an element that \<open>atob\<close>
  rejects after the URL-safe reversal, \<open>decodeBase64\<close> returns no tensor: it fails
  with the exception of the first element whose decoding throws, every element
  before that one having been decoded.\<close>

theorem invalid_base64_fails_fast:
  assumes "i < length (dataSync str)"
    and "atob (fromUrlSafe (dataSync str ! i)) = Inl InvalidCharacterError"
  shows "\<exists>j\<le>i. \<exists>e. decodeBase64 False str = Inl e
           \<and> decodeValue False (dataSync str ! j) = Inl e
           \<and> (\<forall>k<j. \<exists>s. decodeValue False (dataSync str ! k) = Inr s)"
proof -
  have "decodeValue False (dataSync str ! i) = Inl InvalidCharacterError"
    using assms(2) by (rule decodeValue_atob_fails)
  from decodeLoop_fails [OF assms(1) this] obtain j e where "j \<le> i"
    "decodeLoop False (dataSync str) = Inl e"
    "decodeValue False (dataSync str ! j) = Inl e"
    "\<forall>k<j. \<exists>s. decodeValue False (dataSync str ! k) = Inr s"
    by blast
  then show ?thesis
    by (auto simp add: decodeBase64_def)
qed

theorem invalid_base64_fails_fast_witness:
  "(2::nat) < length [js ''8J2Mhg'', js ''!!!!'', js ''A'']
   \<and> atob (fromUrlSafe ([js ''8J2Mhg'', js ''!!!!'', js ''A''] ! 2)) = Inl InvalidCharacterError
   \<and> (\<exists>e. decodeBase64 False
          \<lparr>shape = [3], dtype = ''string'',
           dataSync = [js ''8J2Mhg'', js ''!!!!'', js ''A'']\<rparr> = Inl e)"
proof -
  have a: "atob (fromUrlSafe ([js ''8J2Mhg'', js ''!!!!'', js ''A''] ! 2))
           = Inl InvalidCharacterError"
    by (simp add: atob_A)
  from invalid_base64_fails_fast [of 2 "\<lparr>shape = [3], dtype = ''string'',
           dataSync = [js ''8J2Mhg'', js ''!!!!'', js ''A'']\<rparr>"] a
  have "\<exists>e. decodeBase64 False
          \<lparr>shape = [3], dtype = ''string'',
           dataSync = [js ''8J2Mhg'', js ''!!!!'', js ''A'']\<rparr> = Inl e"
    by auto
  with a show ?thesis by simp
qed

text \<open>C4. \<open>encodeBase64\<close> always returns a tensor, and \<open>decodeBase64\<close> returns one
  unless a value makes it throw; the result has the shape, the dtype and the length
  of the input, and its element at each index is the encoding (decoding) of the
  input element at that index alone.\<close>

theorem elementwise_same_shape:
  "(\<exists>r. encodeBase64 runningInNode str pad = Inr r
        \<and> shape r = shape str \<and> dtype r = dtype str
        \<and> length (dataSync r) = length (dataSync str)
        \<and> (\<forall>i < length (dataSync str).
               encodeValue runningInNode pad (dataSync str ! i) = Inr (dataSync r ! i)))
   \<and> (\<forall>r. decodeBase64 runningInNode str = Inr r \<longrightarrow>
          shape r = shape str \<and> dtype r = dtype str
          \<and> length (dataSync r) = length (dataSync str)
          \<and> (\<forall>i < length (dataSync str).
                 decodeValue runningInNode (dataSync str ! i) = Inr (dataSync r ! i)))"
proof -
  obtain rs where rs: "encodeLoop runningInNode pad (dataSync str) = Inr rs"
    using encodeLoop_map by blast
  then have "length rs = length (dataSync str)"
    and "\<forall>i < length (dataSync str).
           encodeValue runningInNode pad (dataSync str ! i) = Inr (rs ! i)"
    by (simp_all add: encodeLoop_Inr_iff)
  then have enc: "\<exists>r. encodeBase64 runningInNode str pad = Inr r
        \<and> shape r = shape str \<and> dtype r = dtype str
        \<and> length (dataSync r) = length (dataSync str)
        \<and> (\<forall>i < length (dataSync str).
               encodeValue runningInNode pad (dataSync str ! i) = Inr (dataSync r ! i))"
    by (simp add: encodeBase64_def rs)
  have dec: "shape r = shape str \<and> dtype r = dtype str
          \<and> length (dataSync r) = length (dataSync str)
          \<and> (\<forall>i < length (dataSync str).
                 decodeValue runningInNode (dataSync str ! i) = Inr (dataSync r ! i))"
    if d: "decodeBase64 runningInNode str = Inr r" for r
  proof -
    from d obtain rs where rs: "decodeLoop runningInNode (dataSync str) = Inr rs"
      and r: "r = \<lparr>shape = shape str, dtype = dtype str, dataSync = rs\<rparr>"
      by (auto simp add: decodeBase64_def split: sum.splits)
    from rs have "length rs = length (dataSync str)"
      and "\<forall>i < length (dataSync str).
             decodeValue runningInNode (dataSync str ! i) = Inr (rs ! i)"
      by (simp_all add: decodeLoop_Inr_iff)
    then show ?thesis by (simp add: r)
  qed
  from enc dec show ?thesis by blast
qed

theorem elementwise_same_shape_witness:
  "decodeBase64 False
     \<lparr>shape = [2, 1], dtype = ''string'',
      dataSync = [js ''SGVsbG8gVGVuc29yRmxvdy5qcyE'', js ''8J2Mhg'']\<rparr>
   = Inr \<lparr>shape = [2, 1], dtype = ''string'',
          dataSync = [js ''Hello TensorFlow.js!'', [0xD834, 0xDF06]]\<rparr>
   \<and> decodeValue False (js ''8J2Mhg'') = Inr [0xD834, 0xDF06]
   \<and> (\<exists>r. encodeBase64 False
            \<lparr>shape = [2, 1], dtype = ''string'',
             dataSync = [js ''SGVsbG8gVGVuc29yRmxvdy5qcyE'', js ''8J2Mhg'']\<rparr> True = Inr r
          \<and> shape r = [2, 1] \<and> length (dataSync r) = 2)"
proof -
  let ?t = "\<lparr>shape = [2, 1], dtype = ''string'',
      dataSync = [js ''SGVsbG8gVGVuc29yRmxvdy5qcyE'', js ''8J2Mhg'']\<rparr>"
  let ?r = "\<lparr>shape = [2, 1], dtype = ''string'',
          dataSync = [js ''Hello TensorFlow.js!'', [0xD834, 0xDF06]]\<rparr>"
  note inst = elementwise_same_shape [of False ?t True]
  have d: "decodeBase64 False ?t = Inr ?r"
    by (simp add: decodeBase64_def decodeValue_hello_manual decodeValue_tetragram_manual)
  from inst have "\<forall>r. decodeBase64 False ?t = Inr r \<longrightarrow>
      (\<forall>i < length (dataSync ?t). decodeValue False (dataSync ?t ! i) = Inr (dataSync r ! i))"
    by blast
  with d have "\<forall>i < length (dataSync ?t).
      decodeValue False (dataSync ?t ! i) = Inr (dataSync ?r ! i)"
    by blast
  then have "1 < length (dataSync ?t) \<longrightarrow>
      decodeValue False (dataSync ?t ! 1) = Inr (dataSync ?r ! 1)"
    by (rule spec)
  then have "decodeValue False (dataSync ?t ! 1) = Inr (dataSync ?r ! 1)"
    by simp
  then have e: "decodeValue False (js ''8J2Mhg'') = Inr [0xD834, 0xDF06]"
    by simp
  from inst have "\<exists>r. encodeBase64 False ?t True = Inr r
          \<and> shape r = [2, 1] \<and> length (dataSync r) = 2"
    by auto
  with d e show ?thesis by blast
qed

text \<open>C5. For every string \<open>s\<close>, the padded and the unpadded encoding differ only
  in trailing \<open>=\<close> characters: the padded result is the unpadded result, which holds
  no \<open>=\<close>, with \<open>=\<close> characters appended.\<close>

theorem pad_only_appends_pad_chars:
  "\<exists>e k. encodeValue runningInNode False s = Inr e
        \<and> encodeValue runningInNode True s = Inr (e @ replicate k padChar)
        \<and> padChar \<notin> set e"
proof -
  let ?bs = "if runningInNode then Buffer_from s else concat (map utf8_bytes (code_points s))"
  have "padChar \<notin> set (finish False (base64_encode ?bs))"
    by (simp add: finish_def remove_char_def)
  then show ?thesis
    unfolding encodeValue_total finish_padded by blast
qed

text \<open>C6. For every input string and either value of \<open>pad\<close>, the encoding succeeds
  and its output contains neither \<open>+\<close> (43) nor \<open>/\<close> (47).\<close>

theorem encoded_output_url_safe:
  "\<exists>e. encodeValue runningInNode pad v = Inr e \<and> 43 \<notin> set e \<and> 47 \<notin> set e"
  unfolding encodeValue_total using finish_no_plus_slash by blast

text \<open>C7. The literal test vectors, on both paths: \<open>Hello TensorFlow.js!\<close> encodes
  to \<open>SGVsbG8gVGVuc29yRmxvdy5qcyE\<close> and the single code point U+1D306 (the surrogate
  pair D834 DF06) to \<open>8J2Mhg\<close> with \<open>pad\<close> false, and the empty string encodes to the
  empty string.\<close>

theorem encode_test_vectors:
  "encodeBase64 runningInNode
     \<lparr>shape = [3], dtype = ''string'',
      dataSync = [js ''Hello TensorFlow.js!'', [0xD834, 0xDF06], []]\<rparr> False
   = Inr \<lparr>shape = [3], dtype = ''string'',
          dataSync = [js ''SGVsbG8gVGVuc29yRmxvdy5qcyE'', js ''8J2Mhg'', []]\<rparr>
   \<and> code_points [0xD834, 0xDF06] = [0x1D306]
   \<and> encodeValue runningInNode pad [] = Inr []"
  by (cases runningInNode)
     (simp_all add: encodeBase64_def encodeValue_hello_node encodeValue_hello_manual
        encodeValue_tetragram_node encodeValue_tetragram_manual encodeValue_empty
        isHighSurrogate_def isLowSurrogate_def)

text \<open>C8. The two encoding paths, Node's \<open>Buffer\<close> and the manual UTF-8 packing
  followed by \<open>btoa\<close>, give the same output for every valid Unicode string and either
  value of \<open>pad\<close>.\<close>

theorem encode_paths_agree:
  assumes "wellFormed v"
  shows "encodeValue True pad v = encodeValue False pad v"
  using assms by (simp add: encodeValue_total Buffer_from_wellFormed)

theorem encode_paths_agree_witness:
  "wellFormed (js ''Hello TensorFlow.js!'')
   \<and> encodeValue True False (js ''Hello TensorFlow.js!'')
       = encodeValue False False (js ''Hello TensorFlow.js!'')"
  using encode_paths_agree [of "js ''Hello TensorFlow.js!''" False]
  by (simp add: wellFormed_hello)

text \<open>C9. With the arrays in a store: for a tensor whose array holds its strings,
  a call of \<open>encodeBase64\<close> or \<open>decodeBase64\<close> leaves every array of the store as it
  was, the input's among them, and adds exactly one new array, which holds the
  results and which the returned tensor refers to. The results are those of the
  loop over the input values alone: a second call on the same input, in the store
  the first call left, returns the same values in another new array.\<close>

theorem codec_effects_on_store:
  assumes "dataId str < length h" and "h ! dataId str = map Some vs"
    and "prod_list (ref_shape str) = length vs"
  shows "(\<exists>rs. encodeLoop runningInNode pad vs = Inr rs
            \<and> encodeBase64_store runningInNode h str pad =
                (h @ [map Some rs],
                 Inr \<lparr>ref_shape = ref_shape str, ref_dtype = ref_dtype str,
                      dataId = length h\<rparr>)
            \<and> encodeBase64_store runningInNode (h @ [map Some rs]) str pad =
                (h @ [map Some rs, map Some rs],
                 Inr \<lparr>ref_shape = ref_shape str, ref_dtype = ref_dtype str,
                      dataId = Suc (length h)\<rparr>))
       \<and> (\<exists>arr. fst (decodeBase64_store runningInNode h str) = h @ [arr]
            \<and> (case decodeLoop runningInNode vs of
                  Inl e \<Rightarrow> snd (decodeBase64_store runningInNode h str) = Inl e
                | Inr rs \<Rightarrow>
                    arr = map Some rs
                    \<and> snd (decodeBase64_store runningInNode h str) =
                        Inr \<lparr>ref_shape = ref_shape str, ref_dtype = ref_dtype str,
                             dataId = length h\<rparr>))"
proof -
  obtain rs where rs: "encodeLoop runningInNode pad vs = Inr rs"
    using encodeLoop_map by blast
  then have run: "run_body (encodeValue runningInNode pad) vs = (rs, None)"
    unfolding encodeLoop_run_body by (auto split: prod.splits option.splits)
  have first: "encodeBase64_store runningInNode h str pad =
      (h @ [map Some rs],
       Inr \<lparr>ref_shape = ref_shape str, ref_dtype = ref_dtype str, dataId = length h\<rparr>)"
    using encodeBase64_store_result [OF assms] by (simp add: run)
  have "dataId str < length (h @ [map Some rs])"
    and "(h @ [map Some rs]) ! dataId str = map Some vs"
    using assms by (simp_all add: nth_append)
  from encodeBase64_store_result [OF this assms(3), of runningInNode pad]
  have second: "encodeBase64_store runningInNode (h @ [map Some rs]) str pad =
      (h @ [map Some rs, map Some rs],
       Inr \<lparr>ref_shape = ref_shape str, ref_dtype = ref_dtype str, dataId = Suc (length h)\<rparr>)"
    by (simp add: run)
  obtain bs eo where d: "run_body (decodeValue runningInNode) vs = (bs, eo)"
    by (cases "run_body (decodeValue runningInNode) vs")
  have "\<exists>arr. fst (decodeBase64_store runningInNode h str) = h @ [arr]
            \<and> (case decodeLoop runningInNode vs of
                  Inl e \<Rightarrow> snd (decodeBase64_store runningInNode h str) = Inl e
                | Inr rs \<Rightarrow>
                    arr = map Some rs
                    \<and> snd (decodeBase64_store runningInNode h str) =
                        Inr \<lparr>ref_shape = ref_shape str, ref_dtype = ref_dtype str,
                             dataId = length h\<rparr>)"
    unfolding decodeBase64_store_result [OF assms] decodeLoop_run_body d
    by (cases eo) simp_all
  with rs first second show ?thesis by blast
qed

theorem codec_effects_on_store_witness:
  "encodeBase64_store True [[Some (js ''Hello TensorFlow.js!'')]]
     \<lparr>ref_shape = [1], ref_dtype = ''string'', dataId = 0\<rparr> False
   = ([[Some (js ''Hello TensorFlow.js!'')], [Some (js ''SGVsbG8gVGVuc29yRmxvdy5qcyE'')]],
      Inr \<lparr>ref_shape = [1], ref_dtype = ''string'', dataId = 1\<rparr>)"
  using codec_effects_on_store [of "\<lparr>ref_shape = [1], ref_dtype = ''string'', dataId = 0\<rparr>"
      "[[Some (js ''Hello TensorFlow.js!'')]]" "[js ''Hello TensorFlow.js!'']" True False]
  by (simp add: encodeValue_hello_node)


end
